theory Spec2Isabelle
  imports Main "HOL-Library.Word" "HOL-Library.AList"
begin

unbundle bit_operations_syntax

section \<open>Go library functions used by the package\<close>

text \<open>
  The package is written against the Go standard library (\<^verbatim>\<open>strings\<close>,
  \<^verbatim>\<open>path/filepath\<close>) on a system whose path separator is the slash.  Go strings
  are byte sequences; they are modelled by \<^typ>\<open>string\<close>.
\<close>

definition HasPrefix :: "string \<Rightarrow> string \<Rightarrow> bool" where
  "HasPrefix s p = (length p \<le> length s \<and> take (length p) s = p)"

definition HasSuffix :: "string \<Rightarrow> string \<Rightarrow> bool" where
  "HasSuffix s suf = (length suf \<le> length s \<and> drop (length s - length suf) s = suf)"

definition TrimPrefix :: "string \<Rightarrow> string \<Rightarrow> string" where
  "TrimPrefix s p = (if HasPrefix s p then drop (length p) s else s)"

definition TrimSuffix :: "string \<Rightarrow> string \<Rightarrow> string" where
  "TrimSuffix s suf = (if HasSuffix s suf then take (length s - length suf) s else s)"

text \<open>\<^verbatim>\<open>filepath.IsAbs\<close>: a path is absolute when it starts with the separator.\<close>

definition IsAbs :: "string \<Rightarrow> bool" where
  "IsAbs path = HasPrefix path ''/''"

text \<open>The elements of a path: the pieces between separators (empty pieces included).\<close>

primrec split_slash :: "string \<Rightarrow> string list" where
  "split_slash [] = [[]]"
| "split_slash (c # cs) =
     (if c = CHR ''/'' then [] # split_slash cs
      else (case split_slash cs of
              [] \<Rightarrow> [[c]]
            | s # ss \<Rightarrow> (c # s) # ss))"

fun join_slash :: "string list \<Rightarrow> string" where
  "join_slash [] = []"
| "join_slash [s] = s"
| "join_slash (s # t # ss) = s @ ''/'' @ join_slash (t # ss)"

text \<open>
  \<^verbatim>\<open>filepath.Clean\<close> processes the elements from left to right: an empty element and
  \<^verbatim>\<open>.\<close> are dropped; \<^verbatim>\<open>..\<close> removes the preceding element that is not itself \<^verbatim>\<open>..\<close>,
  is dropped at the root of a rooted path, and is kept at the start of a path that is not
  rooted.  The stack holds the elements kept so far, last one first.
\<close>

definition clean_step :: "bool \<Rightarrow> string list \<Rightarrow> string \<Rightarrow> string list" where
  "clean_step rooted stack seg =
     (if seg = [] \<or> seg = ''.'' then stack
      else if seg = ''..'' then
        (case stack of
           [] \<Rightarrow> (if rooted then [] else [''..''])
         | t # rest \<Rightarrow>
             (if t \<noteq> ''..'' then rest
              else if rooted then stack else ''..'' # stack))
      else seg # stack)"

definition Clean :: "string \<Rightarrow> string" where
  "Clean path =
     (if path = [] then ''.''
      else
        (let rooted = (hd path = CHR ''/'');
             body = join_slash (rev (foldl (clean_step rooted) [] (split_slash path)))
         in if rooted then ''/'' @ body
            else if body = [] then ''.'' else body))"

text \<open>
  \<^verbatim>\<open>filepath.Join\<close>: leading empty elements are ignored, the rest is joined with
  separators and cleaned; the result is empty when every element is.
\<close>

fun Join :: "string list \<Rightarrow> string" where
  "Join [] = []"
| "Join (e # es) = (if e = [] then Join es else Clean (join_slash (e # es)))"

text \<open>\<^verbatim>\<open>filepath.Dir\<close>: everything up to the last separator, cleaned.\<close>

definition Dir :: "string \<Rightarrow> string" where
  "Dir path = Clean (rev (dropWhile (\<lambda>c. c \<noteq> CHR ''/'') (rev path)))"

text \<open>
  The elements that \<^verbatim>\<open>Clean\<close> keeps of a rooted path, and the chain of directories from
  the root down to the path: \<^verbatim>\<open>/\<close>, \<^verbatim>\<open>/a\<close>, \<^verbatim>\<open>/a/b\<close> for \<^verbatim>\<open>/a/b\<close>.
\<close>

definition elems :: "string \<Rightarrow> string list" where
  "elems p = rev (foldl (clean_step True) [] (split_slash p))"

primrec inits :: "'a list \<Rightarrow> 'a list list" where
  "inits [] = [[]]"
| "inits (x # xs) = [] # map ((#) x) (inits xs)"

definition path_chain :: "string \<Rightarrow> string list" where
  "path_chain p = map (\<lambda>segs. ''/'' @ join_slash segs) (inits (elems p))"

text \<open>A proper path element: not empty, not \<^verbatim>\<open>.\<close> or \<^verbatim>\<open>..\<close>, and free of separators.\<close>

definition good_elem :: "string \<Rightarrow> bool" where
  "good_elem s = (s \<noteq> [] \<and> s \<noteq> ''.'' \<and> s \<noteq> ''..'' \<and> CHR ''/'' \<notin> set s)"

text \<open>
  A cleaned absolute path: the root, or a slash followed by proper elements that single
  slashes separate.
\<close>

definition cleaned_abs :: "string \<Rightarrow> bool" where
  "cleaned_abs s =
     (IsAbs s \<and> (s = ''/'' \<or> list_all good_elem (split_slash (tl s))))"

section \<open>Data model\<close>

text \<open>
  A Go \<^verbatim>\<open>error\<close> value: one built by \<^verbatim>\<open>fmt.Errorf\<close> from a message, one that wraps
  another error (the \<^verbatim>\<open>%w\<close> verb), an \<^verbatim>\<open>*fs.PathError\<close> (operation, path, cause), or
  another error that a library outside the package produced.
\<close>

datatype error =
    Errorf string
  | Errorf_w string error
  | PathError string string error
  | LibError string

type_synonym bytes = "8 word list"

type_synonym FileMode = "32 word"

text \<open>What the package reads from an \<^verbatim>\<open>fs.FileInfo\<close>.\<close>

record FileInfo =
  info_Name :: string
  info_Size :: nat
  info_Mode :: FileMode
  info_IsDir :: bool

text \<open>
  One call that \<^verbatim>\<open>afero.Walk\<close> makes to its callback \<^verbatim>\<open>walkFn(path, info, err)\<close>: with
  the file information and a nil error, or with the error the walker met at this entry
  (and the information it has, if any).
\<close>

datatype WalkVisit =
    Visit string FileInfo
  | VisitError string "FileInfo option" error

text \<open>
  The mutable backing store is the \<^verbatim>\<open>afero.Fs\<close> interface, implemented outside the
  package (an in-memory map or a directory of the operating system).  It is a black box:
  a state of type \<^typ>\<open>'s\<close> and the operations the package calls on it.  \<open>afero_Walk\<close> gives
  the calls that \<^verbatim>\<open>afero.Walk\<close> makes, in order, to a callback that returns no error.
\<close>

record 's afero_Fs =
  afero_MkdirAll :: "string \<Rightarrow> FileMode \<Rightarrow> 's \<Rightarrow> error option \<times> 's"
  afero_WriteFile :: "string \<Rightarrow> bytes \<Rightarrow> FileMode \<Rightarrow> 's \<Rightarrow> error option \<times> 's"
  afero_ReadFile :: "string \<Rightarrow> 's \<Rightarrow> error + bytes"
  afero_Stat :: "string \<Rightarrow> 's \<Rightarrow> error + FileInfo"
  afero_Remove :: "string \<Rightarrow> 's \<Rightarrow> error option \<times> 's"
  afero_RemoveAll :: "string \<Rightarrow> 's \<Rightarrow> error option \<times> 's"
  afero_Walk :: "string \<Rightarrow> 's \<Rightarrow> WalkVisit list"

text \<open>
  An embedded archive (\<^verbatim>\<open>embed.FS\<close>) is read-only, so it is a value: the answers of the
  \<^verbatim>\<open>io/fs\<close> functions on it.  A call of \<^verbatim>\<open>fs.WalkDir\<close> to its callback carries the path
  and either a directory entry, of which the package asks \<^verbatim>\<open>d.Info()\<close>, or an error.
\<close>

datatype WalkDirVisit =
    WalkDirEntry string "error + FileInfo"
  | WalkDirError string error

record embed_FS =
  embed_ReadFile :: "string \<Rightarrow> error + bytes"
  embed_Stat :: "string \<Rightarrow> error + FileInfo"
  embed_WalkDir :: "string \<Rightarrow> WalkDirVisit list"

record BundledFS =
  embedFS :: embed_FS
  prefix :: string
  subdir :: string

text \<open>
  The registry is a Go map from prefix to entry: an association list whose keys are
  distinct.  The mutex is not modelled (calls are taken one at a time).
\<close>

record BundledManager =
  bundled :: "(string \<times> BundledFS) list"

datatype VFSType = VFSTypeMemory | VFSTypeDisk | VFSTypeHybrid

text \<open>
  The watch manager: the native watcher (a black box of type \<^typ>\<open>'w\<close>), the map from
  watched path to callback (callbacks are values of type \<^typ>\<open>'c\<close>), the root directory
  and the closed flag.
\<close>

record ('w, 'c) WatchManager =
  watcher :: 'w
  watches :: "(string \<times> 'c) list"
  rootPath :: string
  closed :: bool

text \<open>
  The filesystem instance.  The interface value \<^verbatim>\<open>afero.Fs\<close> is the pair of the store's
  operations (\<open>afero\<close>) and its current state (\<open>fs\<close>); a nil \<^verbatim>\<open>watchManager\<close> is \<open>None\<close>.
  The logger is left out: its calls change neither a result nor the state.
\<close>

record ('s, 'w, 'c) VFS =
  fs :: 's
  afero :: "'s afero_Fs"
  root :: string
  vfsType :: VFSType
  bundledManager :: BundledManager
  watchManager :: "('w, 'c) WatchManager option"
  diskPath :: string

section \<open>Bundled registry\<close>

definition NewBundledManager :: BundledManager where
  "NewBundledManager = \<lparr>bundled = []\<rparr>"

text \<open>\<^verbatim>\<open>Register\<close>: the key always ends in \<^verbatim>\<open>://\<close>; an existing key is overwritten.\<close>

definition Register ::
  "BundledManager \<Rightarrow> string \<Rightarrow> embed_FS \<Rightarrow> string \<Rightarrow> error option \<times> BundledManager" where
  "Register bm pfx efs sub =
     (let pfx' = (if \<not> HasSuffix pfx ''://'' then pfx @ ''://'' else pfx);
          b = \<lparr>embedFS = efs, prefix = TrimSuffix pfx' ''://'', subdir = sub\<rparr>
      in (None, bm\<lparr>bundled := AList.update pfx' b (bundled bm)\<rparr>))"

text \<open>
  Go visits the keys of a map in an order that the runtime picks anew for every
  \<^verbatim>\<open>range\<close> loop.  A loop whose result depends on the order takes it as an argument:
  a list of the keys of the map, each once.
\<close>

definition range_order :: "BundledManager \<Rightarrow> string list \<Rightarrow> bool" where
  "range_order bm ks = (distinct ks \<and> set ks = set (map fst (bundled bm)))"

text \<open>
  \<^verbatim>\<open>GetBundledFS\<close>: the first key visited that is a prefix of the path decides.  The
  result \<^verbatim>\<open>(nil, "", false)\<close> is \<open>None\<close>.
\<close>

fun GetBundledFS :: "string list \<Rightarrow> BundledManager \<Rightarrow> string \<Rightarrow> (BundledFS \<times> string) option" where
  "GetBundledFS [] bm path = None"
| "GetBundledFS (k # ks) bm path =
     (case map_of (bundled bm) k of
        None \<Rightarrow> GetBundledFS ks bm path
      | Some b \<Rightarrow>
          (if HasPrefix path k then Some (b, TrimPrefix path k)
           else GetBundledFS ks bm path))"

text \<open>\<^verbatim>\<open>IsBundledPath\<close>: some key is a prefix of the path (the order does not matter).\<close>

definition IsBundledPath :: "BundledManager \<Rightarrow> string \<Rightarrow> bool" where
  "IsBundledPath bm path = list_ex (\<lambda>(k, b). HasPrefix path k) (bundled bm)"

definition ListRegistered :: "string list \<Rightarrow> BundledManager \<Rightarrow> string list" where
  "ListRegistered ks bm = map (\<lambda>k. TrimSuffix k ''://'') ks"

definition getFullPath :: "BundledFS \<Rightarrow> string \<Rightarrow> string" where
  "getFullPath b path = (if subdir b = [] then path else Join [subdir b, path])"

definition getOriginalPath :: "BundledFS \<Rightarrow> string \<Rightarrow> string" where
  "getOriginalPath b fullPath =
     (if subdir b = [] then fullPath else TrimPrefix fullPath (subdir b @ ''/''))"

definition BundledFS_ReadFile :: "BundledFS \<Rightarrow> string \<Rightarrow> error + bytes" where
  "BundledFS_ReadFile b path = embed_ReadFile (embedFS b) (getFullPath b path)"

definition BundledFS_Stat :: "BundledFS \<Rightarrow> string \<Rightarrow> error + FileInfo" where
  "BundledFS_Stat b path = embed_Stat (embedFS b) (getFullPath b path)"

definition BundledFS_Exists :: "BundledFS \<Rightarrow> string \<Rightarrow> bool" where
  "BundledFS_Exists b path =
     (case embed_Stat (embedFS b) (getFullPath b path) of Inl err \<Rightarrow> False | Inr st \<Rightarrow> True)"

definition BundledFS_IsDir :: "BundledFS \<Rightarrow> string \<Rightarrow> bool" where
  "BundledFS_IsDir b path =
     (case embed_Stat (embedFS b) (getFullPath b path) of
        Inl err \<Rightarrow> False
      | Inr st \<Rightarrow> info_IsDir st)"

section \<open>The facade\<close>

text \<open>\<^verbatim>\<open>normalizePath\<close>: a bundled path as it is, a relative path joined to the root.\<close>

definition normalizePath :: "('s, 'w, 'c) VFS \<Rightarrow> string \<Rightarrow> string" where
  "normalizePath v path =
     (if IsBundledPath (bundledManager v) path then path
      else if \<not> IsAbs path then Join [''/'', path]
      else path)"

definition ReadFile :: "string list \<Rightarrow> ('s, 'w, 'c) VFS \<Rightarrow> string \<Rightarrow> error + bytes" where
  "ReadFile ks v filename =
     (case GetBundledFS ks (bundledManager v) filename of
        Some (b, bundledPath) \<Rightarrow> BundledFS_ReadFile b bundledPath
      | None \<Rightarrow> afero_ReadFile (afero v) (normalizePath v filename) (fs v))"

text \<open>The permission bits \<^verbatim>\<open>0755\<close> of the directories that \<^verbatim>\<open>WriteFile\<close> creates.\<close>

definition perm_0755 :: FileMode where
  "perm_0755 = 493"

definition WriteFile ::
  "('s, 'w, 'c) VFS \<Rightarrow> string \<Rightarrow> bytes \<Rightarrow> FileMode \<Rightarrow> error option \<times> ('s, 'w, 'c) VFS" where
  "WriteFile v filename data perm =
     (if IsBundledPath (bundledManager v) filename
      then (Some (Errorf (''cannot write to bundled URL: '' @ filename)), v)
      else
        (let vfsPath = normalizePath v filename in
         case afero_MkdirAll (afero v) (Dir vfsPath) perm_0755 (fs v) of
           (Some err, s1) \<Rightarrow> (Some err, v\<lparr>fs := s1\<rparr>)
         | (None, s1) \<Rightarrow>
             (case afero_WriteFile (afero v) vfsPath data perm s1 of
                (err, s2) \<Rightarrow> (err, v\<lparr>fs := s2\<rparr>))))"

text \<open>
  \<^verbatim>\<open>Exists\<close> drops the error of \<^verbatim>\<open>afero.Exists\<close>, which is true exactly when \<^verbatim>\<open>Stat\<close> on
  the store succeeds.
\<close>

definition Exists :: "string list \<Rightarrow> ('s, 'w, 'c) VFS \<Rightarrow> string \<Rightarrow> bool" where
  "Exists ks v path =
     (case GetBundledFS ks (bundledManager v) path of
        Some (b, bundledPath) \<Rightarrow> BundledFS_Exists b bundledPath
      | None \<Rightarrow>
          (case afero_Stat (afero v) (normalizePath v path) (fs v) of
             Inl err \<Rightarrow> False
           | Inr st \<Rightarrow> True))"

definition IsDir :: "string list \<Rightarrow> ('s, 'w, 'c) VFS \<Rightarrow> string \<Rightarrow> bool" where
  "IsDir ks v path =
     (case GetBundledFS ks (bundledManager v) path of
        Some (b, bundledPath) \<Rightarrow> BundledFS_IsDir b bundledPath
      | None \<Rightarrow>
          (case afero_Stat (afero v) (normalizePath v path) (fs v) of
             Inl err \<Rightarrow> False
           | Inr st \<Rightarrow> info_IsDir st))"

definition MkdirAll ::
  "('s, 'w, 'c) VFS \<Rightarrow> string \<Rightarrow> FileMode \<Rightarrow> error option \<times> ('s, 'w, 'c) VFS" where
  "MkdirAll v path perm =
     (if IsBundledPath (bundledManager v) path
      then (Some (Errorf (''cannot create directories in bundled URL: '' @ path)), v)
      else
        (case afero_MkdirAll (afero v) (normalizePath v path) perm (fs v) of
           (err, s1) \<Rightarrow> (err, v\<lparr>fs := s1\<rparr>)))"

definition Remove :: "('s, 'w, 'c) VFS \<Rightarrow> string \<Rightarrow> error option \<times> ('s, 'w, 'c) VFS" where
  "Remove v path =
     (if IsBundledPath (bundledManager v) path
      then (Some (Errorf (''cannot remove bundled URL: '' @ path)), v)
      else
        (case afero_Remove (afero v) (normalizePath v path) (fs v) of
           (err, s1) \<Rightarrow> (err, v\<lparr>fs := s1\<rparr>)))"

definition RemoveAll :: "('s, 'w, 'c) VFS \<Rightarrow> string \<Rightarrow> error option \<times> ('s, 'w, 'c) VFS" where
  "RemoveAll v path =
     (if IsBundledPath (bundledManager v) path
      then (Some (Errorf (''cannot remove bundled URL: '' @ path)), v)
      else
        (case afero_RemoveAll (afero v) (normalizePath v path) (fs v) of
           (err, s1) \<Rightarrow> (err, v\<lparr>fs := s1\<rparr>)))"

definition Stat :: "string list \<Rightarrow> ('s, 'w, 'c) VFS \<Rightarrow> string \<Rightarrow> error + FileInfo" where
  "Stat ks v path =
     (case GetBundledFS ks (bundledManager v) path of
        Some (b, bundledPath) \<Rightarrow> BundledFS_Stat b bundledPath
      | None \<Rightarrow> afero_Stat (afero v) (normalizePath v path) (fs v))"

text \<open>
  \<^verbatim>\<open>Walk\<close>: the calls the walker makes, from a bundled archive or from the store.  For an
  archive, \<^verbatim>\<open>BundledFS.Walk\<close> turns each entry's path back into a prefixed URL.
\<close>

definition BundledFS_Walk :: "BundledFS \<Rightarrow> string \<Rightarrow> WalkVisit list" where
  "BundledFS_Walk b rt =
     map (\<lambda>x. case x of
            WalkDirError path err \<Rightarrow> VisitError path None err
          | WalkDirEntry path (Inl err) \<Rightarrow> VisitError path None err
          | WalkDirEntry path (Inr info) \<Rightarrow>
              Visit (prefix b @ ''://'' @ getOriginalPath b path) info)
       (embed_WalkDir (embedFS b) (getFullPath b rt))"

definition walk_visits :: "string list \<Rightarrow> ('s, 'w, 'c) VFS \<Rightarrow> string \<Rightarrow> WalkVisit list" where
  "walk_visits ks v rt =
     (case GetBundledFS ks (bundledManager v) rt of
        Some (b, bundledPath) \<Rightarrow> BundledFS_Walk b bundledPath
      | None \<Rightarrow> afero_Walk (afero v) (normalizePath v rt) (fs v))"

text \<open>
  The walker stops at the first error that the callback returns and returns it.  The
  callback threads what it mutates (\<^typ>\<open>'a\<close>).  No callback of the package returns
  \<^verbatim>\<open>filepath.SkipDir\<close>.
\<close>

fun walk_run ::
  "('a \<Rightarrow> WalkVisit \<Rightarrow> error option \<times> 'a) \<Rightarrow> 'a \<Rightarrow> WalkVisit list \<Rightarrow> error option \<times> 'a" where
  "walk_run walkFn acc [] = (None, acc)"
| "walk_run walkFn acc (x # xs) =
     (case walkFn acc x of
        (Some err, acc') \<Rightarrow> (Some err, acc')
      | (None, acc') \<Rightarrow> walk_run walkFn acc' xs)"

definition Walk ::
  "string list \<Rightarrow> ('s, 'w, 'c) VFS \<Rightarrow> string \<Rightarrow> ('a \<Rightarrow> WalkVisit \<Rightarrow> error option \<times> 'a) \<Rightarrow> 'a
   \<Rightarrow> error option \<times> 'a" where
  "Walk ks v rt walkFn acc = walk_run walkFn acc (walk_visits ks v rt)"

text \<open>
  What the package takes from outside: the constructors of the two stores, and the native
  change-notification primitive (\<^verbatim>\<open>fsnotify\<close>) with a watcher state of type \<^typ>\<open>'w\<close>.
\<close>

record ('s, 'w) platform =
  NewMemMapFs :: "'s afero_Fs \<times> 's"
  NewBasePathFs :: "string \<Rightarrow> 's afero_Fs \<times> 's"
  fsnotify_NewWatcher :: "error + 'w"
  fsnotify_Add :: "string \<Rightarrow> 'w \<Rightarrow> error option \<times> 'w"
  fsnotify_Remove :: "string \<Rightarrow> 'w \<Rightarrow> error option \<times> 'w"
  fsnotify_Close :: "'w \<Rightarrow> error option \<times> 'w"

text \<open>
  \<^verbatim>\<open>Clone\<close>: a new memory instance that shares the registry; the callback of the walk
  copies every file that is not a directory and not bundled.  \<open>Clone_init\<close> is the new
  instance before the walk, \<open>Clone_copy\<close> the walk with its result; \<^verbatim>\<open>Clone\<close> drops the
  error.  The inner loops over the registry run only
  on paths that are not bundled, where their order plays no part, so one order is passed.
  In the code the clone holds the same registry object as the original, so that a later
  registration through either is seen by both; here the clone carries the registry as it
  is when \<^verbatim>\<open>Clone\<close> is called, and the theorems follow one instance from there.
\<close>

definition Clone_walkFn ::
  "string list \<Rightarrow> ('s, 'w, 'c) VFS \<Rightarrow> ('s, 'w, 'c) VFS \<Rightarrow> WalkVisit
   \<Rightarrow> error option \<times> ('s, 'w, 'c) VFS" where
  "Clone_walkFn ks v clone x =
     (case x of
        VisitError path info err \<Rightarrow> (Some err, clone)
      | Visit path info \<Rightarrow>
          (if info_IsDir info then (None, clone)
           else if IsBundledPath (bundledManager v) path then (None, clone)
           else
             (case ReadFile ks v path of
                Inl readErr \<Rightarrow> (Some readErr, clone)
              | Inr data \<Rightarrow> WriteFile clone path data (info_Mode info))))"

definition Clone_init :: "('s, 'w) platform \<Rightarrow> ('s, 'w, 'c) VFS \<Rightarrow> ('s, 'w, 'c) VFS" where
  "Clone_init P v =
     \<lparr>fs = snd (NewMemMapFs P), afero = fst (NewMemMapFs P), root = root v,
      vfsType = VFSTypeMemory, bundledManager = bundledManager v,
      watchManager = None, diskPath = []\<rparr>"

definition Clone_copy ::
  "('s, 'w) platform \<Rightarrow> string list \<Rightarrow> ('s, 'w, 'c) VFS \<Rightarrow> error option \<times> ('s, 'w, 'c) VFS" where
  "Clone_copy P ks v = Walk ks v ''/'' (Clone_walkFn ks v) (Clone_init P v)"

definition Clone :: "('s, 'w) platform \<Rightarrow> string list \<Rightarrow> ('s, 'w, 'c) VFS \<Rightarrow> ('s, 'w, 'c) VFS" where
  "Clone P ks v = snd (Clone_copy P ks v)"

text \<open>
  \<^verbatim>\<open>Copy\<close> and \<^verbatim>\<open>Move\<close>.  \<^verbatim>\<open>Copy\<close> resolves the source twice (to read it and to stat
  it), each time with an order of its own.
\<close>

definition Copy ::
  "string list \<Rightarrow> string list \<Rightarrow> ('s, 'w, 'c) VFS \<Rightarrow> string \<Rightarrow> string
   \<Rightarrow> error option \<times> ('s, 'w, 'c) VFS" where
  "Copy ks1 ks2 v src dst =
     (case ReadFile ks1 v src of
        Inl err \<Rightarrow> (Some (Errorf_w (''failed to read source file '' @ src @ '': '') err), v)
      | Inr data \<Rightarrow>
          (case Stat ks2 v src of
             Inl err \<Rightarrow> (Some (Errorf_w (''failed to stat source file '' @ src @ '': '') err), v)
           | Inr info \<Rightarrow> WriteFile v dst data (info_Mode info)))"

definition Move ::
  "string list \<Rightarrow> string list \<Rightarrow> ('s, 'w, 'c) VFS \<Rightarrow> string \<Rightarrow> string
   \<Rightarrow> error option \<times> ('s, 'w, 'c) VFS" where
  "Move ks1 ks2 v src dst =
     (case Copy ks1 ks2 v src dst of
        (Some err, v1) \<Rightarrow> (Some err, v1)
      | (None, v1) \<Rightarrow> Remove v1 src)"

text \<open>
  \<^verbatim>\<open>Merge\<close> walks another instance from its root and writes every file that is not a
  directory below \<open>destPath\<close>.  The other instance is taken as it is when the call
  starts.
\<close>

definition Merge_walkFn ::
  "string list \<Rightarrow> ('t, 'x, 'd) VFS \<Rightarrow> string \<Rightarrow> ('s, 'w, 'c) VFS \<Rightarrow> WalkVisit
   \<Rightarrow> error option \<times> ('s, 'w, 'c) VFS" where
  "Merge_walkFn ks other destPath v x =
     (case x of
        VisitError path info err \<Rightarrow> (Some err, v)
      | Visit path info \<Rightarrow>
          (if info_IsDir info then (None, v)
           else
             (case ReadFile ks other path of
                Inl readErr \<Rightarrow> (Some readErr, v)
              | Inr data \<Rightarrow>
                  (case MkdirAll v (Dir (Join [destPath, TrimPrefix path ''/''])) perm_0755 of
                     (Some err, v1) \<Rightarrow> (Some err, v1)
                   | (None, v1) \<Rightarrow>
                       WriteFile v1 (Join [destPath, TrimPrefix path ''/'']) data
                         (info_Mode info)))))"

definition Merge ::
  "string list \<Rightarrow> string list \<Rightarrow> ('s, 'w, 'c) VFS \<Rightarrow> ('t, 'x, 'd) VFS \<Rightarrow> string
   \<Rightarrow> error option \<times> ('s, 'w, 'c) VFS" where
  "Merge ks1 ks2 v other destPath =
     Walk ks1 other ''/'' (Merge_walkFn ks2 other destPath) v"

section \<open>Construction\<close>

text \<open>The options (the logger of \<^verbatim>\<open>WithLogger\<close> is not modelled).\<close>

datatype VFSOption = WithLogger | WithRoot string | WithType VFSType

fun apply_option :: "string \<times> VFSType \<Rightarrow> VFSOption \<Rightarrow> string \<times> VFSType" where
  "apply_option (r, t) WithLogger = (r, t)"
| "apply_option (r, t) (WithRoot rt) = (Clean rt, t)"
| "apply_option (r, t) (WithType ty) = (r, ty)"

text \<open>
  \<^verbatim>\<open>NewWatchManager\<close>: nil when the native watcher cannot be created.  The goroutine that
  drains the events is not part of this model.
\<close>

definition NewWatchManager :: "('s, 'w) platform \<Rightarrow> string \<Rightarrow> ('w, 'c) WatchManager option" where
  "NewWatchManager P rp =
     (case fsnotify_NewWatcher P of
        Inl err \<Rightarrow> None
      | Inr w \<Rightarrow> Some \<lparr>watcher = w, watches = [], rootPath = rp, closed = False\<rparr>)"

definition New :: "('s, 'w) platform \<Rightarrow> VFSOption list \<Rightarrow> ('s, 'w, 'c) VFS" where
  "New P opts =
     (case foldl apply_option (''/'', VFSTypeMemory) opts of
        (r, VFSTypeDisk) \<Rightarrow>
          (let r' = (if r = ''/'' then ''.'' else r) in
           \<lparr>fs = snd (NewBasePathFs P r'), afero = fst (NewBasePathFs P r'), root = r',
            vfsType = VFSTypeDisk, bundledManager = NewBundledManager,
            watchManager = NewWatchManager P r', diskPath = r'\<rparr>)
      | (r, ty) \<Rightarrow>
          \<lparr>fs = snd (NewMemMapFs P), afero = fst (NewMemMapFs P), root = r,
           vfsType = ty, bundledManager = NewBundledManager,
           watchManager = None, diskPath = []\<rparr>)"

definition NewMemoryVFS :: "('s, 'w) platform \<Rightarrow> VFSOption list \<Rightarrow> ('s, 'w, 'c) VFS" where
  "NewMemoryVFS P opts = New P (opts @ [WithType VFSTypeMemory])"

definition NewDiskVFS :: "('s, 'w) platform \<Rightarrow> string \<Rightarrow> VFSOption list \<Rightarrow> ('s, 'w, 'c) VFS" where
  "NewDiskVFS P rp opts = New P (opts @ [WithType VFSTypeDisk, WithRoot rp])"

definition NewHybridVFS :: "('s, 'w) platform \<Rightarrow> VFSOption list \<Rightarrow> ('s, 'w, 'c) VFS" where
  "NewHybridVFS P opts = New P (opts @ [WithType VFSTypeHybrid])"

definition RegisterBundled ::
  "('s, 'w, 'c) VFS \<Rightarrow> string \<Rightarrow> embed_FS \<Rightarrow> string \<Rightarrow> error option \<times> ('s, 'w, 'c) VFS" where
  "RegisterBundled v pfx efs sub =
     (case Register (bundledManager v) pfx efs sub of
        (err, bm) \<Rightarrow> (err, v\<lparr>bundledManager := bm\<rparr>))"

section \<open>Watch subsystem\<close>

text \<open>
  \<^verbatim>\<open>pathMatches\<close>.  \<^verbatim>\<open>filepath.HasPrefix\<close> is \<^verbatim>\<open>strings.HasPrefix\<close> here.  The glob
  matcher \<^verbatim>\<open>filepath.Match(pattern, name)\<close> of the standard library is an argument: it
  returns whether the name matches, and an error for a malformed pattern.
\<close>

definition pathMatches ::
  "(string \<Rightarrow> string \<Rightarrow> bool \<times> error option) \<Rightarrow> string \<Rightarrow> string \<Rightarrow> bool" where
  "pathMatches Match filePath watchPath =
     (if filePath = watchPath then True
      else if watchPath = ''/'' \<or> HasPrefix filePath (watchPath @ ''/'') then True
      else
        (case Match watchPath filePath of
           (matched, Some err) \<Rightarrow> False
         | (matched, None) \<Rightarrow> matched))"

text \<open>The directory that the native watcher is asked to observe for a watched path.\<close>

definition watch_diskPath :: "string \<Rightarrow> string \<Rightarrow> string" where
  "watch_diskPath rp path =
     (if path = ''/'' then rp else Join [rp, TrimPrefix path ''/''])"

text \<open>The methods of the watch manager; the receiver may be nil (\<open>None\<close>).\<close>

definition WatchManager_Watch ::
  "('s, 'w) platform \<Rightarrow> ('w, 'c) WatchManager option \<Rightarrow> string \<Rightarrow> 'c
   \<Rightarrow> error option \<times> ('w, 'c) WatchManager option" where
  "WatchManager_Watch P wmo path action =
     (case wmo of
        None \<Rightarrow> (Some (Errorf ''watch manager is not available''), None)
      | Some wm \<Rightarrow>
          (if closed wm then (Some (Errorf ''watch manager is not available''), Some wm)
           else
             (case fsnotify_Add P (watch_diskPath (rootPath wm) path) (watcher wm) of
                (Some err, w') \<Rightarrow>
                  (Some (Errorf_w (''failed to watch path '' @ path @ '': '') err),
                   Some (wm\<lparr>watcher := w'\<rparr>))
              | (None, w') \<Rightarrow>
                  (None, Some (wm\<lparr>watcher := w', watches := AList.update path action (watches wm)\<rparr>)))))"

definition WatchManager_StopWatch ::
  "('s, 'w) platform \<Rightarrow> ('w, 'c) WatchManager option \<Rightarrow> string
   \<Rightarrow> error option \<times> ('w, 'c) WatchManager option" where
  "WatchManager_StopWatch P wmo path =
     (case wmo of
        None \<Rightarrow> (None, None)
      | Some wm \<Rightarrow>
          (if closed wm then (None, Some wm)
           else
             (case fsnotify_Remove P (watch_diskPath (rootPath wm) path) (watcher wm) of
                (err, w') \<Rightarrow>
                  (None, Some (wm\<lparr>watcher := w', watches := AList.delete path (watches wm)\<rparr>)))))"

text \<open>
  \<^verbatim>\<open>StopAllWatches\<close> removes every watched path from the native watcher (errors are only
  logged); the paths are taken in the order of the list.
\<close>

definition WatchManager_StopAllWatches ::
  "('s, 'w) platform \<Rightarrow> ('w, 'c) WatchManager option
   \<Rightarrow> error option \<times> ('w, 'c) WatchManager option" where
  "WatchManager_StopAllWatches P wmo =
     (case wmo of
        None \<Rightarrow> (None, None)
      | Some wm \<Rightarrow>
          (if closed wm then (None, Some wm)
           else
             (None,
              Some (wm\<lparr>watcher :=
                         foldl (\<lambda>w path.
                                  snd (fsnotify_Remove P
                                         (Join [rootPath wm, TrimPrefix path ''/'']) w))
                           (watcher wm) (map fst (watches wm)),
                       watches := []\<rparr>))))"

definition WatchManager_IsWatching :: "('w, 'c) WatchManager option \<Rightarrow> string \<Rightarrow> bool" where
  "WatchManager_IsWatching wmo path =
     (case wmo of
        None \<Rightarrow> False
      | Some wm \<Rightarrow> (if closed wm then False else map_of (watches wm) path \<noteq> None))"

text \<open>The watch calls of the facade delegate to the watch manager when there is one.\<close>

definition Watch ::
  "('s, 'w) platform \<Rightarrow> ('s, 'w, 'c) VFS \<Rightarrow> string \<Rightarrow> 'c \<Rightarrow> error option \<times> ('s, 'w, 'c) VFS" where
  "Watch P v path action =
     (case watchManager v of
        None \<Rightarrow> (Some (Errorf ''watching is only available for disk-based VFS''), v)
      | Some wm \<Rightarrow>
          (case WatchManager_Watch P (Some wm) path action of
             (err, wmo) \<Rightarrow> (err, v\<lparr>watchManager := wmo\<rparr>)))"

definition StopWatch ::
  "('s, 'w) platform \<Rightarrow> ('s, 'w, 'c) VFS \<Rightarrow> string \<Rightarrow> error option \<times> ('s, 'w, 'c) VFS" where
  "StopWatch P v path =
     (case watchManager v of
        None \<Rightarrow> (Some (Errorf ''watching is only available for disk-based VFS''), v)
      | Some wm \<Rightarrow>
          (case WatchManager_StopWatch P (Some wm) path of
             (err, wmo) \<Rightarrow> (err, v\<lparr>watchManager := wmo\<rparr>)))"

definition StopAllWatches ::
  "('s, 'w) platform \<Rightarrow> ('s, 'w, 'c) VFS \<Rightarrow> error option \<times> ('s, 'w, 'c) VFS" where
  "StopAllWatches P v =
     (case watchManager v of
        None \<Rightarrow> (Some (Errorf ''watching is only available for disk-based VFS''), v)
      | Some wm \<Rightarrow>
          (case WatchManager_StopAllWatches P (Some wm) of
             (err, wmo) \<Rightarrow> (err, v\<lparr>watchManager := wmo\<rparr>)))"

definition IsWatching :: "('s, 'w, 'c) VFS \<Rightarrow> string \<Rightarrow> bool" where
  "IsWatching v path =
     (case watchManager v of
        None \<Rightarrow> False
      | Some wm \<Rightarrow> WatchManager_IsWatching (Some wm) path)"

text \<open>
  \<^verbatim>\<open>Close\<close>: the watch manager is marked closed, its watches are stopped (which does
  nothing once it is closed) and the native watcher is closed.
\<close>

definition WatchManager_Close ::
  "('s, 'w) platform \<Rightarrow> ('w, 'c) WatchManager option
   \<Rightarrow> error option \<times> ('w, 'c) WatchManager option" where
  "WatchManager_Close P wmo =
     (case wmo of
        None \<Rightarrow> (None, None)
      | Some wm \<Rightarrow>
          (if closed wm then (None, Some wm)
           else
             (case WatchManager_StopAllWatches P (Some (wm\<lparr>closed := True\<rparr>)) of
                (e, None) \<Rightarrow> (None, None)
              | (e, Some wm1) \<Rightarrow>
                  (case fsnotify_Close P (watcher wm1) of
                     (err, w') \<Rightarrow> (err, Some (wm1\<lparr>watcher := w'\<rparr>))))))"

definition Close ::
  "('s, 'w) platform \<Rightarrow> ('s, 'w, 'c) VFS \<Rightarrow> error option \<times> ('s, 'w, 'c) VFS" where
  "Close P v =
     (case watchManager v of
        None \<Rightarrow> (None, v)
      | Some wm \<Rightarrow>
          (case WatchManager_Close P (Some wm) of
             (err, wmo) \<Rightarrow> (err, v\<lparr>watchManager := wmo\<rparr>)))"

text \<open>
  The memory and hybrid instances: what \<^verbatim>\<open>New\<close> builds with a type other than disk
  (\<^verbatim>\<open>NewMemoryVFS\<close> and \<^verbatim>\<open>NewHybridVFS\<close> among them), every clone, and what the
  operations of the facade make of such an instance.  The fields of an instance are
  not exported, so an instance changes through these operations only.  The operations that
  are not modelled one by one (\<^verbatim>\<open>Create\<close> and the file it returns,
  \<^verbatim>\<open>LoadFromDisk\<close>) change the state of the store and nothing else: the last rule.
  An option is applied by \<^verbatim>\<open>New\<close>, before the store is built; applying one to a
  finished instance is no operation of the facade and is not followed here.
\<close>

inductive memory_or_hybrid :: "('s, 'w) platform \<Rightarrow> ('s, 'w, 'c) VFS \<Rightarrow> bool"
  for P :: "('s, 'w) platform" where
  by_New:
    "vfsType (New P opts :: ('s, 'w, 'c) VFS) \<noteq> VFSTypeDisk \<Longrightarrow>
     memory_or_hybrid P (New P opts)"
| by_NewMemoryVFS: "memory_or_hybrid P (NewMemoryVFS P opts)"
| by_NewHybridVFS: "memory_or_hybrid P (NewHybridVFS P opts)"
| by_Clone: "memory_or_hybrid P (Clone P ks v0)"
| after_RegisterBundled:
    "memory_or_hybrid P v \<Longrightarrow> memory_or_hybrid P (snd (RegisterBundled v pfx efs sub))"
| after_WriteFile:
    "memory_or_hybrid P v \<Longrightarrow> memory_or_hybrid P (snd (WriteFile v p b m))"
| after_MkdirAll:
    "memory_or_hybrid P v \<Longrightarrow> memory_or_hybrid P (snd (MkdirAll v p m))"
| after_Remove:
    "memory_or_hybrid P v \<Longrightarrow> memory_or_hybrid P (snd (Remove v p))"
| after_RemoveAll:
    "memory_or_hybrid P v \<Longrightarrow> memory_or_hybrid P (snd (RemoveAll v p))"
| after_Copy:
    "memory_or_hybrid P v \<Longrightarrow> memory_or_hybrid P (snd (Copy ks1 ks2 v src dst))"
| after_Move:
    "memory_or_hybrid P v \<Longrightarrow> memory_or_hybrid P (snd (Move ks1 ks2 v src dst))"
| after_Merge:
    "memory_or_hybrid P v \<Longrightarrow>
     memory_or_hybrid P (snd (Merge ks1 ks2 v (other :: ('s, 'w, 'c) VFS) destPath))"
| after_Watch:
    "memory_or_hybrid P v \<Longrightarrow> memory_or_hybrid P (snd (Watch P v path action))"
| after_StopWatch:
    "memory_or_hybrid P v \<Longrightarrow> memory_or_hybrid P (snd (StopWatch P v path))"
| after_StopAllWatches:
    "memory_or_hybrid P v \<Longrightarrow> memory_or_hybrid P (snd (StopAllWatches P v))"
| after_Close:
    "memory_or_hybrid P v \<Longrightarrow> memory_or_hybrid P (snd (Close P v))"
| through_store:
    "memory_or_hybrid P v \<Longrightarrow> memory_or_hybrid P (v\<lparr>fs := s\<rparr>)"

section \<open>Dump\<close>

text \<open>
  The \<^verbatim>\<open>io.Writer\<close> that \<^verbatim>\<open>Dump\<close> receives: the nil interface value, a buffer, or a
  writer whose every write fails.  \<^verbatim>\<open>io.WriteString\<close> calls the writer's method, which on
  the nil interface is a nil-pointer dereference: the call panics (\<open>None\<close>).  The package
  ignores the count and the error that \<^verbatim>\<open>io.WriteString\<close> returns, so only the writer
  afterwards is kept.
\<close>

datatype Writer = NilWriter | Buffer string | BrokenWriter error

definition io_WriteString :: "Writer \<Rightarrow> string \<Rightarrow> Writer option" where
  "io_WriteString w str =
     (case w of
        NilWriter \<Rightarrow> None
      | Buffer out \<Rightarrow> Some (Buffer (out @ str))
      | BrokenWriter err \<Rightarrow> Some (BrokenWriter err))"

text \<open>A call either panics or returns.\<close>

datatype 'a outcome = Panic | Returns 'a

text \<open>\<^verbatim>\<open>filepath.Base\<close>: the last element of the path.\<close>

definition Base :: "string \<Rightarrow> string" where
  "Base path =
     (if path = [] then ''.''
      else
        (let stripped = rev (dropWhile (\<lambda>c. c = CHR ''/'') (rev path));
             b = rev (takeWhile (\<lambda>c. c \<noteq> CHR ''/'') (rev stripped))
         in if b = [] then ''/'' else b))"

text \<open>\<^verbatim>\<open>sort.Strings\<close>: ascending, bytes compared by value.\<close>

fun string_le :: "string \<Rightarrow> string \<Rightarrow> bool" where
  "string_le [] ys = True"
| "string_le (x # xs) [] = False"
| "string_le (x # xs) (y # ys) =
     ((of_char x :: nat) < of_char y \<or> (x = y \<and> string_le xs ys))"

fun string_insert :: "string \<Rightarrow> string list \<Rightarrow> string list" where
  "string_insert x [] = [x]"
| "string_insert x (y # ys) = (if string_le x y then x # y # ys else y # string_insert x ys)"

definition sort_Strings :: "string list \<Rightarrow> string list" where
  "sort_Strings xs = foldr string_insert xs []"

text \<open>The tree of \<^verbatim>\<open>Dump\<close>: a Go map from a directory to the paths below it.\<close>

type_synonym dump_tree = "(string \<times> string list) list"

definition tree_get :: "dump_tree \<Rightarrow> string \<Rightarrow> string list" where
  "tree_get tree k = (case map_of tree k of None \<Rightarrow> [] | Some xs \<Rightarrow> xs)"

definition tree_append :: "dump_tree \<Rightarrow> string \<Rightarrow> string \<Rightarrow> dump_tree" where
  "tree_append tree k path = AList.update k (tree_get tree k @ [path]) tree"

text \<open>The box-drawing connectors of the rendering, as the bytes of their UTF-8 encoding.\<close>

definition connector_mid :: string where
  "connector_mid = [CHR 0xE2, CHR 0x94, CHR 0x9C, CHR 0xE2, CHR 0x94, CHR 0x80,
                    CHR 0xE2, CHR 0x94, CHR 0x80, CHR '' '']"

definition connector_last :: string where
  "connector_last = [CHR 0xE2, CHR 0x94, CHR 0x94, CHR 0xE2, CHR 0x94, CHR 0x80,
                     CHR 0xE2, CHR 0x94, CHR 0x80, CHR '' '']"

definition indent_bar :: string where
  "indent_bar = [CHR 0xE2, CHR 0x94, CHR 0x82, CHR '' '', CHR '' '', CHR '' '']"

text \<open>
  \<^verbatim>\<open>printTree\<close> recurses into every entry that is a key of the tree.  Nothing in the
  function bounds the depth, so the model counts it: \<open>None\<close> when the fuel runs out.
\<close>

fun printTree :: "nat \<Rightarrow> Writer \<Rightarrow> dump_tree \<Rightarrow> string \<Rightarrow> string \<Rightarrow> Writer outcome option"
  and printTree_entries ::
    "nat \<Rightarrow> Writer \<Rightarrow> dump_tree \<Rightarrow> string \<Rightarrow> string list \<Rightarrow> Writer outcome option" where
  "printTree 0 w tree rt indent = None"
| "printTree (Suc n) w tree rt indent =
     printTree_entries n w tree indent (sort_Strings (tree_get tree rt))"
| "printTree_entries n w tree indent [] = Some (Returns w)"
| "printTree_entries n w tree indent (path # rest) =
     (let isLast = (rest = []);
          connector = (if isLast then connector_last else connector_mid)
      in case io_WriteString w (indent @ connector @ Base path @ [CHR 0x0A]) of
           None \<Rightarrow> Some Panic
         | Some w1 \<Rightarrow>
             (if map_of tree path \<noteq> None then
                (case printTree n w1 tree path
                        (if isLast then indent @ ''    '' else indent @ indent_bar) of
                   Some (Returns w2) \<Rightarrow> printTree_entries n w2 tree indent rest
                 | r \<Rightarrow> r)
              else printTree_entries n w1 tree indent rest))"

definition Dump_walkFn :: "dump_tree \<Rightarrow> WalkVisit \<Rightarrow> error option \<times> dump_tree" where
  "Dump_walkFn tree x =
     (case x of
        VisitError path info err \<Rightarrow> (Some err, tree)
      | Visit path info \<Rightarrow>
          (if path = ''/'' then (None, tree)
           else
             (let parent = Dir path;
                  parent' = (if parent = ''.'' then ''/'' else parent)
              in (None, tree_append tree parent' path))))"

definition Dump_bundle_walkFn :: "string \<Rightarrow> dump_tree \<Rightarrow> WalkVisit \<Rightarrow> error option \<times> dump_tree" where
  "Dump_bundle_walkFn pfx tree x =
     (case x of
        VisitError path info err \<Rightarrow> (Some err, tree)
      | Visit path info \<Rightarrow>
          (let cleanPath = TrimPrefix path (pfx @ ''://'') in
           if cleanPath = [] \<or> cleanPath = ''.'' then (None, tree)
           else
             (let parent = Dir cleanPath;
                  parent' = (if parent = ''.'' then [] else parent)
              in (None, tree_append tree parent' cleanPath))))"

text \<open>The loop of \<^verbatim>\<open>Dump\<close> over the registered prefixes.\<close>

fun Dump_bundles ::
  "nat \<Rightarrow> string list \<Rightarrow> BundledManager \<Rightarrow> Writer \<Rightarrow> string list \<Rightarrow> Writer outcome option" where
  "Dump_bundles fuel ks bm w [] = Some (Returns w)"
| "Dump_bundles fuel ks bm w (pfx # rest) =
     (case io_WriteString w (''Bundle ['' @ pfx @ ''://]:'' @ [CHR 0x0A]) of
        None \<Rightarrow> Some Panic
      | Some w1 \<Rightarrow>
          (case GetBundledFS ks bm (pfx @ ''://'') of
             None \<Rightarrow> Dump_bundles fuel ks bm w1 rest
           | Some (b, bundledPath) \<Rightarrow>
               (case printTree fuel w1
                       (snd (walk_run (Dump_bundle_walkFn pfx) [] (BundledFS_Walk b [])))
                       [] ''  '' of
                  Some (Returns w2) \<Rightarrow> Dump_bundles fuel ks bm w2 rest
                | r \<Rightarrow> r)))"

definition is_PathError :: "error \<Rightarrow> bool" where
  "is_PathError err = (case err of PathError op path cause \<Rightarrow> True | _ \<Rightarrow> False)"

text \<open>
  \<^verbatim>\<open>Dump\<close>.  \<open>ks\<close> is the order of the registry loop of \<^verbatim>\<open>Walk\<close>, \<open>ks1\<close> the one of
  \<^verbatim>\<open>ListRegistered\<close>, \<open>ks2\<close> the one of the lookups of the prefixes.  The result is
  the returned error with the writer afterwards.
\<close>

definition Dump ::
  "nat \<Rightarrow> string list \<Rightarrow> string list \<Rightarrow> string list \<Rightarrow> ('s, 'w, 'c) VFS \<Rightarrow> Writer
   \<Rightarrow> (error option \<times> Writer) outcome option" where
  "Dump fuel ks ks1 ks2 v writer =
     (case io_WriteString writer (''--- VFS Root ---'' @ [CHR 0x0A]) of
        None \<Rightarrow> Some Panic
      | Some w1 \<Rightarrow>
          (case Walk ks v ''/'' Dump_walkFn [] of
             (err, tree) \<Rightarrow>
               (if (case err of None \<Rightarrow> False | Some e \<Rightarrow> \<not> is_PathError e)
                then Some (Returns (err, w1))
                else
                  (case printTree fuel w1 tree ''/'' [] of
                     None \<Rightarrow> None
                   | Some Panic \<Rightarrow> Some Panic
                   | Some (Returns w2) \<Rightarrow>
                       (let registeredPrefixes = ListRegistered ks1 (bundledManager v) in
                        if registeredPrefixes = [] then Some (Returns (None, w2))
                        else
                          (case io_WriteString w2
                                  ([CHR 0x0A] @ ''--- Bundled Filesystems ---'' @ [CHR 0x0A]) of
                             None \<Rightarrow> Some Panic
                           | Some w3 \<Rightarrow>
                               (case Dump_bundles fuel ks2 (bundledManager v) w3
                                       registeredPrefixes of
                                  None \<Rightarrow> None
                                | Some Panic \<Rightarrow> Some Panic
                                | Some (Returns w4) \<Rightarrow> Some (Returns (None, w4)))))))))"

section \<open>What the facade expects of a backing store\<close>

text \<open>
  The registry invariant: every key ends in \<^verbatim>\<open>://\<close> (\<^verbatim>\<open>Register\<close> sees to it).
\<close>

definition wf_registry :: "BundledManager \<Rightarrow> bool" where
  "wf_registry bm = list_all (\<lambda>(k, b). HasSuffix k ''://'') (bundled bm)"

text \<open>
  The stores are outside the package.  What a theorem needs of a store is named here and
  assumed where it is used; each law speaks of absolute paths, the only ones the facade
  passes to a store.
\<close>

definition is_dir_at :: "'s afero_Fs \<Rightarrow> 's \<Rightarrow> string \<Rightarrow> bool" where
  "is_dir_at A s p = (case afero_Stat A p s of Inl err \<Rightarrow> False | Inr st \<Rightarrow> info_IsDir st)"

text \<open>
  Content: a file that was written reads back; writing one path, or creating directories,
  keeps the bytes that could be read at another path; a path and its cleaned form read
  the same bytes.  Nothing is said of \<^verbatim>\<open>Stat\<close>: a write may create or convert the
  directories above it.
\<close>

definition store_content :: "'s afero_Fs \<Rightarrow> bool" where
  "store_content A =
     ((\<forall>p b m s s'. IsAbs p \<longrightarrow> afero_WriteFile A p b m s = (None, s') \<longrightarrow>
          afero_ReadFile A p s' = Inr b) \<and>
      (\<forall>p q b c m s e s'. IsAbs p \<longrightarrow> IsAbs q \<longrightarrow> Clean p \<noteq> Clean q \<longrightarrow>
          afero_WriteFile A q c m s = (e, s') \<longrightarrow>
          afero_ReadFile A p s = Inr b \<longrightarrow> afero_ReadFile A p s' = Inr b) \<and>
      (\<forall>p d m s e s' b. IsAbs p \<longrightarrow> afero_MkdirAll A d m s = (e, s') \<longrightarrow>
          afero_ReadFile A p s = Inr b \<longrightarrow> afero_ReadFile A p s' = Inr b) \<and>
      (\<forall>p s b. IsAbs p \<longrightarrow>
          (afero_ReadFile A (Clean p) s = Inr b) = (afero_ReadFile A p s = Inr b)))"

text \<open>A store that never refuses to create a directory or to write (an in-memory one).\<close>

definition store_total :: "'s afero_Fs \<Rightarrow> bool" where
  "store_total A =
     ((\<forall>d m s. fst (afero_MkdirAll A d m s) = None) \<and>
      (\<forall>p b m s. fst (afero_WriteFile A p b m s) = None))"


text \<open>
  The chain of directories above a path, read from the path up to the root, is in order
  when it consists of missing entries followed by directories only: no entry on it is a
  regular file, and none hangs below a missing one.
\<close>

fun missing_then_dirs :: "'s afero_Fs \<Rightarrow> 's \<Rightarrow> string list \<Rightarrow> bool" where
  "missing_then_dirs A s [] = True"
| "missing_then_dirs A s (a # up) =
     (case afero_Stat A a s of
        Inl err \<Rightarrow> missing_then_dirs A s up
      | Inr st \<Rightarrow> info_IsDir st \<and> list_all (is_dir_at A s) up)"

text \<open>
  Directories: on a chain that is in order, a successful \<^verbatim>\<open>MkdirAll\<close> leaves a directory
  at every path of the chain; a write never turns a directory into something else.
\<close>

definition store_tree :: "'s afero_Fs \<Rightarrow> bool" where
  "store_tree A =
     ((\<forall>d m s s'. IsAbs d \<longrightarrow> afero_MkdirAll A d m s = (None, s') \<longrightarrow>
          missing_then_dirs A s (rev (path_chain d)) \<longrightarrow>
          (\<forall>a\<in>set (path_chain d). is_dir_at A s' a)) \<and>
      (\<forall>p b m s e s' a. IsAbs p \<longrightarrow> IsAbs a \<longrightarrow> afero_WriteFile A p b m s = (e, s') \<longrightarrow>
          is_dir_at A s a \<longrightarrow> is_dir_at A s' a))"

text \<open>
  What \<^verbatim>\<open>Clone\<close> makes of the walk of an instance.  A call of the walk can be copied
  when it carries no error and, for a file that is neither a directory nor bundled, the
  file can be read.  The walk copies the file at \<open>q\<close> when every call can be copied and
  one of them visits \<open>q\<close> as a file that is not a directory.
\<close>

definition copyable :: "('s, 'w, 'c) VFS \<Rightarrow> WalkVisit \<Rightarrow> bool" where
  "copyable v x =
     (case x of
        VisitError path info err \<Rightarrow> False
      | Visit path info \<Rightarrow>
          info_IsDir info \<or> IsBundledPath (bundledManager v) path \<or>
          (case afero_ReadFile (afero v) (normalizePath v path) (fs v) of
             Inl err \<Rightarrow> False
           | Inr d \<Rightarrow> True))"

definition visits_file :: "string \<Rightarrow> WalkVisit \<Rightarrow> bool" where
  "visits_file q x =
     (case x of
        VisitError path info err \<Rightarrow> False
      | Visit path info \<Rightarrow> path = q \<and> \<not> info_IsDir info)"

definition walk_copies :: "('s, 'w, 'c) VFS \<Rightarrow> string \<Rightarrow> bool" where
  "walk_copies v q =
     (list_all (copyable v) (afero_Walk (afero v) ''/'' (fs v)) \<and>
      list_ex (visits_file q) (afero_Walk (afero v) ''/'' (fs v)))"

section \<open>The in-memory store\<close>

text \<open>
  The store of a memory or hybrid instance is \<^verbatim>\<open>afero.MemMapFs\<close> (version 1.14.0 of the
  library): a map from normalised name to file data.  A directory is file data with the
  directory flag and a listing (\<^verbatim>\<open>memDir\<close>) of the entries registered with it; the
  listing is what a walk follows.  The model keeps the names of the listed entries.  The
  package passes absolute names only, and the model is of those.  Modification times are
  left out.
\<close>

record FileData =
  fd_data :: bytes
  fd_mode :: FileMode
  fd_dir :: bool
  fd_memDir :: "string list"

type_synonym MemStore = "(string \<times> FileData) list"

text \<open>
  \<^verbatim>\<open>os.ModeDir\<close>, and the bits that \<^verbatim>\<open>Mkdir\<close> and \<^verbatim>\<open>OpenFile\<close> keep of a mode
  (\<^verbatim>\<open>chmodBits\<close>: permissions, setuid, setgid, sticky).
\<close>

definition ModeDir :: FileMode where
  "ModeDir = 2147483648"

definition chmodBits :: FileMode where
  "chmodBits = 13631999"

definition mem_normalizePath :: "string \<Rightarrow> string" where
  "mem_normalizePath path =
     (let p = Clean path in if p = ''.'' \<or> p = ''..'' then ''/'' else p)"

text \<open>
  The file information of an entry: the name is what follows the last separator (empty
  for the root), the size of a directory is 42.
\<close>

definition mem_name :: "string \<Rightarrow> string" where
  "mem_name k = rev (takeWhile (\<lambda>c. c \<noteq> CHR ''/'') (rev k))"

definition mem_info :: "string \<Rightarrow> FileData \<Rightarrow> FileInfo" where
  "mem_info k fd =
     \<lparr>info_Name = mem_name k,
      info_Size = (if fd_dir fd then 42 else length (fd_data fd)),
      info_Mode = fd_mode fd, info_IsDir = fd_dir fd\<rparr>"

definition mem_not_exist :: "string \<Rightarrow> string \<Rightarrow> error" where
  "mem_not_exist op p = PathError op (mem_normalizePath p) (LibError ''file does not exist'')"

definition mem_Stat :: "string \<Rightarrow> MemStore \<Rightarrow> error + FileInfo" where
  "mem_Stat p s =
     (case map_of s (mem_normalizePath p) of
        None \<Rightarrow> Inl (mem_not_exist ''open'' p)
      | Some fd \<Rightarrow> Inr (mem_info (mem_normalizePath p) fd))"

text \<open>Reading returns the bytes of the entry, of a directory too.\<close>

definition mem_ReadFile :: "string \<Rightarrow> MemStore \<Rightarrow> error + bytes" where
  "mem_ReadFile p s =
     (case map_of s (mem_normalizePath p) of
        None \<Rightarrow> Inl (mem_not_exist ''open'' p)
      | Some fd \<Rightarrow> Inr (fd_data fd))"

text \<open>
  \<^verbatim>\<open>registerWithParent\<close>.  The entry \<open>k\<close> is listed with its parent.  A parent that
  exists is made a directory if it is none (\<^verbatim>\<open>InitializeDir\<close>) and lists \<open>k\<close>; a parent
  that is missing is created as a directory first (\<^verbatim>\<open>lockfreeMkdir\<close>) and is registered
  with its own parent in turn.  The recursion runs up the chain of the parents, nearest
  first; the root is its own parent.
\<close>

definition mem_add_child :: "MemStore \<Rightarrow> string \<Rightarrow> string \<Rightarrow> MemStore" where
  "mem_add_child s pk k =
     (case map_of s pk of
        None \<Rightarrow> s
      | Some pfd \<Rightarrow>
          AList.update pk
            (pfd\<lparr>fd_dir := True,
                 fd_memDir := List.insert k (if fd_dir pfd then fd_memDir pfd else [])\<rparr>) s)"

definition mem_new_dir :: "FileMode \<Rightarrow> FileData" where
  "mem_new_dir perm = \<lparr>fd_data = [], fd_mode = ModeDir OR perm, fd_dir = True, fd_memDir = []\<rparr>"

fun registerWithParent :: "FileMode \<Rightarrow> MemStore \<Rightarrow> string \<Rightarrow> string list \<Rightarrow> MemStore" where
  "registerWithParent perm s k [] = mem_add_child s k k"
| "registerWithParent perm s k (pk # up) =
     (case map_of s pk of
        Some pfd \<Rightarrow> mem_add_child s pk k
      | None \<Rightarrow>
          mem_add_child
            (registerWithParent perm (AList.update pk (mem_new_dir perm) s) pk up) pk k)"

text \<open>The parents of a name, nearest first, the root last (for the root: itself).\<close>

definition mem_parents :: "string \<Rightarrow> string list" where
  "mem_parents k = rev (path_chain (Dir k))"

definition mem_setFileMode :: "MemStore \<Rightarrow> string \<Rightarrow> FileMode \<Rightarrow> MemStore" where
  "mem_setFileMode s k mode =
     (case map_of s k of
        None \<Rightarrow> s
      | Some fd \<Rightarrow> AList.update k (fd\<lparr>fd_mode := mode\<rparr>) s)"

definition mem_setData :: "MemStore \<Rightarrow> string \<Rightarrow> bytes \<Rightarrow> MemStore" where
  "mem_setData s k b =
     (case map_of s k of
        None \<Rightarrow> s
      | Some fd \<Rightarrow> AList.update k (fd\<lparr>fd_data := b\<rparr>) s)"

text \<open>
  \<^verbatim>\<open>MkdirAll\<close> is \<^verbatim>\<open>Mkdir\<close> with the error of an existing entry dropped: an entry that
  exists is left as it is, a regular file too.
\<close>

definition mem_MkdirAll :: "string \<Rightarrow> FileMode \<Rightarrow> MemStore \<Rightarrow> error option \<times> MemStore" where
  "mem_MkdirAll p perm s =
     (let k = mem_normalizePath p; m = perm AND chmodBits in
      case map_of s k of
        Some fd \<Rightarrow> (None, s)
      | None \<Rightarrow>
          (None,
           mem_setFileMode
             (registerWithParent m (AList.update k (mem_new_dir m) s) k (mem_parents k))
             k (m OR ModeDir)))"

text \<open>
  \<^verbatim>\<open>afero.WriteFile\<close>: \<^verbatim>\<open>OpenFile\<close> with create and truncate, then the write.  An entry
  that exists keeps its mode, its flag and its place; a new one is created with an empty
  mode, registered with its parent (directories that this creates get an empty
  permission), and given the permission bits of the mode.
\<close>

definition mem_WriteFile :: "string \<Rightarrow> bytes \<Rightarrow> FileMode \<Rightarrow> MemStore \<Rightarrow> error option \<times> MemStore" where
  "mem_WriteFile p b perm s =
     (let k = mem_normalizePath p in
      case map_of s k of
        Some fd \<Rightarrow> (None, AList.update k (fd\<lparr>fd_data := b\<rparr>) s)
      | None \<Rightarrow>
          (None,
           mem_setData
             (mem_setFileMode
                (registerWithParent 0
                   (AList.update k \<lparr>fd_data = [], fd_mode = 0, fd_dir = False, fd_memDir = []\<rparr> s)
                   k (mem_parents k))
                k (perm AND chmodBits))
             k b))"

text \<open>
  \<^verbatim>\<open>Remove\<close> takes the entry out of the listing of its parent and out of the map; what
  lies below a directory stays in the map.  Where the parent is missing or is no directory
  the library panics; the model reports an error there and changes nothing.
\<close>

definition mem_parent :: "string \<Rightarrow> string" where
  "mem_parent k = mem_normalizePath (Dir k)"

definition mem_unRegister :: "MemStore \<Rightarrow> string \<Rightarrow> MemStore option" where
  "mem_unRegister s k =
     (case map_of s (mem_parent k) of
        None \<Rightarrow> None
      | Some pfd \<Rightarrow>
          (if fd_dir pfd
           then Some (AList.update (mem_parent k)
                        (pfd\<lparr>fd_memDir := removeAll k (fd_memDir pfd)\<rparr>) s)
           else None))"

definition mem_Remove :: "string \<Rightarrow> MemStore \<Rightarrow> error option \<times> MemStore" where
  "mem_Remove p s =
     (let k = mem_normalizePath p in
      case map_of s k of
        None \<Rightarrow> (Some (PathError ''remove'' k (LibError ''file does not exist'')), s)
      | Some fd \<Rightarrow>
          (case mem_unRegister s k of
             None \<Rightarrow> (Some (LibError ''panic: parent is nil''), s)
           | Some s1 \<Rightarrow> (None, AList.delete k s1)))"

text \<open>
  \<^verbatim>\<open>RemoveAll\<close> takes the entry out of its parent's listing and deletes it with every
  entry below it.
\<close>

definition mem_RemoveAll :: "string \<Rightarrow> MemStore \<Rightarrow> error option \<times> MemStore" where
  "mem_RemoveAll p s =
     (let k = mem_normalizePath p;
          s1 = (case map_of s k of
                  None \<Rightarrow> s
                | Some fd \<Rightarrow> (case mem_unRegister s k of None \<Rightarrow> s | Some s' \<Rightarrow> s'))
      in (None, filter (\<lambda>(q, fd). \<not> (q = k \<or> HasPrefix q (k @ ''/''))) s1))"

text \<open>
  \<^verbatim>\<open>afero.Walk\<close>: the root is looked up; a directory is followed by the entries of its
  listing, by name in order, each looked up under the directory's path joined with the
  name.  The depth of a walk is at most the number of entries of the map (unless a
  directory lists itself, where the library does not return).
\<close>

fun mem_walk :: "nat \<Rightarrow> MemStore \<Rightarrow> string \<Rightarrow> WalkVisit list" where
  "mem_walk 0 s path = []"
| "mem_walk (Suc n) s path =
     (case map_of s (mem_normalizePath path) of
        None \<Rightarrow> [VisitError path None (mem_not_exist ''open'' path)]
      | Some fd \<Rightarrow>
          Visit path (mem_info (mem_normalizePath path) fd) #
          (if fd_dir fd
           then concat (map (\<lambda>name. mem_walk n s (Join [path, name]))
                          (sort_Strings (map mem_name (fd_memDir fd))))
           else []))"

definition mem_Walk :: "string \<Rightarrow> MemStore \<Rightarrow> WalkVisit list" where
  "mem_Walk rt s = mem_walk (Suc (length s)) s rt"

definition MemMapFs :: "MemStore afero_Fs" where
  "MemMapFs =
     \<lparr>afero_MkdirAll = mem_MkdirAll, afero_WriteFile = mem_WriteFile,
      afero_ReadFile = mem_ReadFile, afero_Stat = mem_Stat, afero_Remove = mem_Remove,
      afero_RemoveAll = mem_RemoveAll, afero_Walk = mem_Walk\<rparr>"

text \<open>A fresh store holds the root directory.\<close>

definition mem_empty :: MemStore where
  "mem_empty = [(''/'', mem_new_dir perm_0755)]"

text \<open>
  For the proofs: an entry is a directory in a store; and a store keeps another when every
  entry of the other is still there with its bytes, and a directory is still one.
\<close>

definition mem_is_dir :: "MemStore \<Rightarrow> string \<Rightarrow> bool" where
  "mem_is_dir s a = (case map_of s a of None \<Rightarrow> False | Some fd \<Rightarrow> fd_dir fd)"

definition mem_keeps :: "MemStore \<Rightarrow> MemStore \<Rightarrow> bool" where
  "mem_keeps s s' =
     (\<forall>x fd. map_of s x = Some fd \<longrightarrow>
        (\<exists>fd'. map_of s' x = Some fd' \<and> fd_data fd' = fd_data fd \<and> (fd_dir fd \<longrightarrow> fd_dir fd')))"

section \<open>Instances for the evaluations\<close>

text \<open>
  A platform: the in-memory store (also in the place of the store on disk), and a native
  watcher that is the list of the paths it observes and refuses none.
\<close>

definition ref_platform :: "(MemStore, string list) platform" where
  "ref_platform =
     \<lparr>NewMemMapFs = (MemMapFs, mem_empty),
      NewBasePathFs = (\<lambda>rp. (MemMapFs, mem_empty)),
      fsnotify_NewWatcher = Inr [],
      fsnotify_Add = (\<lambda>p w. (None, p # w)),
      fsnotify_Remove = (\<lambda>p w. (None, removeAll p w)),
      fsnotify_Close = (\<lambda>w. (None, []))\<rparr>"

text \<open>An archive: one file \<^verbatim>\<open>core.go\<close> in the directory \<^verbatim>\<open>stdlib\<close>.\<close>

definition ref_archive :: "bytes \<Rightarrow> embed_FS" where
  "ref_archive content =
     \<lparr>embed_ReadFile = (\<lambda>p. if p = ''stdlib/core.go'' then Inr content
                              else Inl (PathError ''open'' p (LibError ''file does not exist''))),
      embed_Stat = (\<lambda>p. if p = ''stdlib/core.go''
                          then Inr \<lparr>info_Name = ''core.go'', info_Size = length content,
                                    info_Mode = 292, info_IsDir = False\<rparr>
                          else if p = ''stdlib''
                          then Inr \<lparr>info_Name = ''stdlib'', info_Size = 0,
                                    info_Mode = 2147484013, info_IsDir = True\<rparr>
                          else Inl (PathError ''open'' p (LibError ''file does not exist''))),
      embed_WalkDir = (\<lambda>p. if p = ''stdlib''
                          then [WalkDirEntry ''stdlib''
                                  (Inr \<lparr>info_Name = ''stdlib'', info_Size = 0,
                                        info_Mode = 2147484013, info_IsDir = True\<rparr>),
                                WalkDirEntry ''stdlib/core.go''
                                  (Inr \<lparr>info_Name = ''core.go'', info_Size = length content,
                                        info_Mode = 292, info_IsDir = False\<rparr>)]
                          else if p = ''stdlib/core.go''
                          then [WalkDirEntry ''stdlib/core.go''
                                  (Inr \<lparr>info_Name = ''core.go'', info_Size = length content,
                                        info_Mode = 292, info_IsDir = False\<rparr>)]
                          else [WalkDirError p
                                  (PathError ''open'' p (LibError ''file does not exist''))])\<rparr>"

text \<open>
  An empty memory instance, and a hybrid instance with the archive registered under
  \<^verbatim>\<open>stdlib\<close>.
\<close>

definition ref_memory :: "(MemStore, string list, nat) VFS" where
  "ref_memory = NewMemoryVFS ref_platform []"

definition ref_hybrid :: "(MemStore, string list, nat) VFS" where
  "ref_hybrid =
     snd (RegisterBundled (NewHybridVFS ref_platform []) ''stdlib'' (ref_archive [112]) ''stdlib'')"

text \<open>The key under which \<^verbatim>\<open>Register\<close> stores a prefix.\<close>

definition registry_key :: "string \<Rightarrow> string" where
  "registry_key pfx = (if \<not> HasSuffix pfx ''://'' then pfx @ ''://'' else pfx)"

text \<open>
  A registry with two prefixes of which one extends the other: \<^verbatim>\<open>a\<close>, and \<^verbatim>\<open>a://b\<close>
  registered twice.
\<close>

definition overlap_registry :: BundledManager where
  "overlap_registry =
     snd (Register
            (snd (Register
                    (snd (Register NewBundledManager ''a'' (ref_archive [1]) ''stdlib''))
                    ''a://b'' (ref_archive [2]) ''stdlib''))
            ''a://b'' (ref_archive [3]) ''stdlib'')"

text \<open>
  An instance whose store reports an error in the middle of the walk, between two files
  (a directory that cannot be read, on a disk).
\<close>

definition mem_file :: "bytes \<Rightarrow> FileMode \<Rightarrow> FileData" where
  "mem_file b mode = \<lparr>fd_data = b, fd_mode = mode, fd_dir = False, fd_memDir = []\<rparr>"

definition faulty_store :: "MemStore afero_Fs" where
  "faulty_store =
     MemMapFs\<lparr>afero_Walk :=
       (\<lambda>rt s. [Visit ''/a.txt'' (mem_info ''/a.txt'' (mem_file [1] 420)),
                 VisitError ''/b'' None (LibError ''permission denied''),
                 Visit ''/c.txt'' (mem_info ''/c.txt'' (mem_file [3] 420))])\<rparr>"

definition ref_faulty :: "(MemStore, string list, nat) VFS" where
  "ref_faulty =
     ref_memory\<lparr>afero := faulty_store,
                fs := [(''/'', (mem_new_dir perm_0755)\<lparr>fd_memDir := [''/a.txt'', ''/c.txt'']\<rparr>),
                       (''/a.txt'', mem_file [1] 420),
                       (''/c.txt'', mem_file [3] 420)]\<rparr>"

text \<open>A glob matcher for the evaluations: one pattern it knows, one it rejects as malformed.\<close>

definition ref_Match :: "string \<Rightarrow> string \<Rightarrow> bool \<times> error option" where
  "ref_Match pat name =
     (if pat = ''[bad'' then (False, Some (LibError ''syntax error in pattern''))
      else (pat = ''/*.go'' \<and> name = ''/main.go'', None))"

section \<open>Paths\<close>

text \<open>
  The functions above on the examples that the documentation and the tests of
  \<^verbatim>\<open>path/filepath\<close> give.
\<close>

lemma Clean_examples:
  "map Clean
     [''abc'', ''abc/def'', ''a/b/c'', ''.'', ''..'', ''../..'', ''../../abc'', ''/abc'', ''/'', [],
      ''abc/'', ''abc/def/'', ''a/b/c/'', ''./'', ''../'', ''../../'', ''/abc/'',
      ''abc//def//ghi'', ''abc//'', ''abc/./def'', ''/./abc/def'', ''abc/.'',
      ''abc/def/ghi/../jkl'', ''abc/def/../ghi/../jkl'', ''abc/def/..'', ''abc/def/../..'',
      ''/abc/def/../..'', ''abc/def/../../..'', ''/abc/def/../../..'',
      ''abc/def/../../../ghi/jkl/../../../mno'', ''/../abc'',
      ''abc/./../def'', ''abc//./../def'', ''abc/../../././../def''] =
     [''abc'', ''abc/def'', ''a/b/c'', ''.'', ''..'', ''../..'', ''../../abc'', ''/abc'', ''/'', ''.'',
      ''abc'', ''abc/def'', ''a/b/c'', ''.'', ''..'', ''../..'', ''/abc'',
      ''abc/def/ghi'', ''abc'', ''abc/def'', ''/abc/def'', ''abc'',
      ''abc/def/jkl'', ''abc/jkl'', ''abc'', ''.'',
      ''/'', ''..'', ''/'',
      ''../../mno'', ''/abc'',
      ''def'', ''def'', ''../../def'']"
  by code_simp

lemma Join_Dir_Base_examples:
  "Join [''a'', ''b''] = ''a/b'' \<and> Join [''a'', []] = ''a'' \<and> Join [[], ''b''] = ''b'' \<and>
   Join [''/'', ''a''] = ''/a'' \<and> Join [''/'', []] = ''/'' \<and> Join [''a/'', ''b''] = ''a/b'' \<and>
   Join [[], []] = [] \<and> Join [''/a'', ''../b''] = ''/b'' \<and>
   Dir ''/foo/bar/baz.js'' = ''/foo/bar'' \<and> Dir ''/foo/bar/baz'' = ''/foo/bar'' \<and>
   Dir ''/foo/bar/baz/'' = ''/foo/bar/baz'' \<and> Dir ''/dirty//path///'' = ''/dirty/path'' \<and>
   Dir ''dev.txt'' = ''.'' \<and> Dir ''../todo.txt'' = ''..'' \<and> Dir ''..'' = ''.'' \<and>
   Dir ''.'' = ''.'' \<and> Dir ''/'' = ''/'' \<and> Dir [] = ''.'' \<and>
   Base ''/foo/bar/baz.js'' = ''baz.js'' \<and> Base ''/foo/bar/baz/'' = ''baz'' \<and>
   Base ''dev.txt'' = ''dev.txt'' \<and> Base ''/'' = ''/'' \<and> Base [] = ''.''"
  by code_simp

lemma split_slash_nonempty: "split_slash s \<noteq> []"
  by (induction s) (auto split: list.splits)

lemma split_slash_no_slash: "x \<in> set (split_slash s) \<Longrightarrow> CHR ''/'' \<notin> set x"
proof (induction s arbitrary: x)
  case Nil
  then show ?case by simp
next
  case (Cons c cs)
  show ?case
  proof (cases "c = CHR ''/''")
    case True
    with Cons show ?thesis by auto
  next
    case False
    obtain s ss where ss: "split_slash cs = s # ss"
      using split_slash_nonempty[of cs] by (cases "split_slash cs") auto
    with Cons False show ?thesis by auto
  qed
qed

lemma split_slash_plain: "CHR ''/'' \<notin> set s \<Longrightarrow> split_slash s = [s]"
  by (induction s) auto

lemma split_slash_append:
  "CHR ''/'' \<notin> set s \<Longrightarrow> split_slash (s @ CHR ''/'' # r) = s # split_slash r"
  by (induction s) auto

lemma split_join_slash:
  "segs \<noteq> [] \<Longrightarrow> \<forall>x\<in>set segs. CHR ''/'' \<notin> set x \<Longrightarrow> split_slash (join_slash segs) = segs"
proof (induction segs rule: join_slash.induct)
  case 1
  then show ?case by simp
next
  case (2 s)
  then show ?case by (simp add: split_slash_plain)
next
  case (3 s t ss)
  then show ?case by (simp add: split_slash_append)
qed

lemma join_split_slash: "join_slash (split_slash s) = s"
proof (induction s)
  case Nil
  show ?case by simp
next
  case (Cons c cs)
  obtain x xs where xs: "split_slash cs = x # xs"
    using split_slash_nonempty[of cs] by (cases "split_slash cs") auto
  show ?case
  proof (cases "c = CHR ''/''")
    case True
    with Cons xs show ?thesis by simp
  next
    case False
    with Cons xs show ?thesis by (cases xs) simp_all
  qed
qed

lemma clean_step_good:
  assumes st: "\<forall>x\<in>set st. good_elem x" and seg: "CHR ''/'' \<notin> set seg"
  shows "\<forall>x\<in>set (clean_step True st seg). good_elem x"
proof -
  consider (skip) "seg = [] \<or> seg = ''.''"
    | (up) "seg \<noteq> []" "seg \<noteq> ''.''" "seg = ''..''"
    | (push) "seg \<noteq> []" "seg \<noteq> ''.''" "seg \<noteq> ''..''"
    by blast
  then show ?thesis
  proof cases
    case skip
    then have "clean_step True st seg = st" unfolding clean_step_def by presburger
    with st show ?thesis by simp
  next
    case up
    then have "clean_step True st seg = (case st of [] \<Rightarrow> [] | t # rest \<Rightarrow> if t \<noteq> ''..'' then rest else st)"
      unfolding clean_step_def by (simp only: if_False if_True split: list.splits) simp
    with st show ?thesis by (cases st) (simp_all split: if_splits)
  next
    case push
    then have "clean_step True st seg = seg # st" unfolding clean_step_def by presburger
    moreover have "good_elem seg" using push seg unfolding good_elem_def by blast
    ultimately show ?thesis using st by simp
  qed
qed

lemma foldl_clean_good:
  "\<forall>x\<in>set st. good_elem x \<Longrightarrow> \<forall>x\<in>set segs. CHR ''/'' \<notin> set x \<Longrightarrow>
   \<forall>x\<in>set (foldl (clean_step True) st segs). good_elem x"
proof (induction segs arbitrary: st)
  case Nil
  then show ?case by simp
next
  case (Cons a segs)
  have "\<forall>x\<in>set (clean_step True st a). good_elem x"
    using Cons.prems by (intro clean_step_good) auto
  then show ?case using Cons by simp
qed

lemma elems_good: "\<forall>x\<in>set (elems p). good_elem x"
proof -
  have "\<forall>x\<in>set (split_slash p). CHR ''/'' \<notin> set x"
    using split_slash_no_slash by blast
  then have "\<forall>x\<in>set (foldl (clean_step True) [] (split_slash p)). good_elem x"
    by (intro foldl_clean_good) simp_all
  then show ?thesis by (simp add: elems_def)
qed

lemma Clean_rooted:
  assumes "IsAbs p"
  shows "Clean p = ''/'' @ join_slash (elems p)"
proof (cases p)
  case Nil
  with assms show ?thesis by (simp add: IsAbs_def HasPrefix_def)
next
  case (Cons c cs)
  with assms have c: "c = CHR ''/''" by (simp add: IsAbs_def HasPrefix_def)
  show ?thesis unfolding Clean_def elems_def Let_def using Cons c by simp
qed

lemma good_elem_no_slash: "good_elem x \<Longrightarrow> CHR ''/'' \<notin> set x"
  by (simp add: good_elem_def)

lemma cleaned_abs_join:
  assumes "\<forall>x\<in>set segs. good_elem x"
  shows "cleaned_abs (''/'' @ join_slash segs)"
proof (cases segs)
  case Nil
  then show ?thesis by (simp add: cleaned_abs_def IsAbs_def HasPrefix_def)
next
  case (Cons a as)
  then have "split_slash (join_slash segs) = segs"
    using assms by (intro split_join_slash) (auto dest: good_elem_no_slash)
  then show ?thesis using assms
    by (simp add: cleaned_abs_def IsAbs_def HasPrefix_def list_all_iff)
qed

lemma Clean_cleaned_abs: "IsAbs p \<Longrightarrow> cleaned_abs (Clean p)"
  using Clean_rooted[of p] cleaned_abs_join[OF elems_good, of p] by simp

lemma foldl_clean_push:
  "\<forall>x\<in>set segs. good_elem x \<Longrightarrow> foldl (clean_step True) st segs = rev segs @ st"
proof (induction segs arbitrary: st)
  case Nil
  then show ?case by simp
next
  case (Cons a segs)
  then have "good_elem a" by simp
  then have "clean_step True st a = a # st"
    unfolding clean_step_def good_elem_def by presburger
  with Cons show ?case by simp
qed

lemma elems_root: "elems ''/'' = []"
  by (simp add: elems_def clean_step_def)

lemma elems_join:
  assumes "\<forall>x\<in>set segs. good_elem x"
  shows "elems (''/'' @ join_slash segs) = segs"
proof (cases segs)
  case Nil
  then show ?thesis using elems_root by simp
next
  case (Cons a as)
  then have sj: "split_slash (join_slash segs) = segs"
    using assms by (intro split_join_slash) (auto dest: good_elem_no_slash)
  have "elems (''/'' @ join_slash segs) = rev (foldl (clean_step True) (clean_step True [] []) segs)"
    using sj by (simp add: elems_def)
  also have "clean_step True [] [] = []" by (simp add: clean_step_def)
  finally show ?thesis using foldl_clean_push[OF assms, of "[]"] by simp
qed

lemma cleaned_abs_Clean:
  assumes "cleaned_abs q"
  shows "Clean q = q"
proof -
  from assms have abs: "IsAbs q" by (simp add: cleaned_abs_def)
  then obtain t where q: "q = CHR ''/'' # t"
    by (cases q) (auto simp: IsAbs_def HasPrefix_def)
  show ?thesis
  proof (cases "q = ''/''")
    case True
    then show ?thesis using Clean_rooted[OF abs] elems_root by simp
  next
    case False
    with assms q have g: "\<forall>x\<in>set (split_slash t). good_elem x"
      by (simp add: cleaned_abs_def list_all_iff)
    have "q = ''/'' @ join_slash (split_slash t)"
      using q join_split_slash[of t] by simp
    moreover have "elems (''/'' @ join_slash (split_slash t)) = split_slash t"
      using elems_join[OF g] .
    ultimately show ?thesis using Clean_rooted[OF abs] by simp
  qed
qed

section \<open>Registry lookups\<close>

lemma IsBundledPath_iff:
  "IsBundledPath bm p \<longleftrightarrow> (\<exists>k b. (k, b) \<in> set (bundled bm) \<and> HasPrefix p k)"
  by (auto simp: IsBundledPath_def list_ex_iff)

lemma GetBundledFS_not_bundled:
  "\<not> IsBundledPath bm p \<Longrightarrow> GetBundledFS ks bm p = None"
proof (induction ks)
  case Nil
  show ?case by simp
next
  case (Cons k ks)
  show ?case
  proof (cases "map_of (bundled bm) k")
    case None
    with Cons show ?thesis by simp
  next
    case (Some b)
    then have "(k, b) \<in> set (bundled bm)" by (rule map_of_SomeD)
    with Cons.prems have "\<not> HasPrefix p k" by (auto simp: IsBundledPath_iff)
    with Cons Some show ?thesis by simp
  qed
qed

lemma GetBundledFS_SomeD:
  "GetBundledFS ks bm p = Some (b, r) \<Longrightarrow>
   \<exists>k\<in>set ks. map_of (bundled bm) k = Some b \<and> HasPrefix p k \<and> r = TrimPrefix p k"
  by (induction ks) (auto split: option.splits if_splits)

lemma GetBundledFS_only:
  assumes "k \<in> set ks" and "map_of (bundled bm) k = Some b" and "HasPrefix p k"
    and "\<forall>k'\<in>set ks. k' \<noteq> k \<longrightarrow> \<not> HasPrefix p k'"
  shows "GetBundledFS ks bm p = Some (b, TrimPrefix p k)"
  using assms
proof (induction ks)
  case Nil
  then show ?case by simp
next
  case (Cons a ks)
  show ?case
  proof (cases "a = k")
    case True
    with Cons.prems show ?thesis by simp
  next
    case False
    with Cons.prems have "\<not> HasPrefix p a" and "k \<in> set ks" by auto
    moreover have "GetBundledFS ks bm p = Some (b, TrimPrefix p k)"
      using Cons.IH Cons.prems \<open>k \<in> set ks\<close> by auto
    ultimately show ?thesis by (simp split: option.splits)
  qed
qed

section \<open>Path normalisation\<close>

lemma ref_memory_bundled: "bundled (bundledManager ref_memory) = []"
  by (simp add: ref_memory_def NewMemoryVFS_def New_def NewBundledManager_def)

lemma ref_hybrid_keys: "map fst (bundled (bundledManager ref_hybrid)) = [''stdlib://'']"
  by (simp add: ref_hybrid_def RegisterBundled_def Register_def NewHybridVFS_def New_def
      NewBundledManager_def HasSuffix_def Let_def)

text \<open>
  Claim C3, as the code has it.  \<^verbatim>\<open>normalizePath\<close> returns a bundled path unchanged.  A
  path that is not bundled and is absolute is returned unchanged as well: it is not
  cleaned.  A path that is not bundled and is relative is joined to the root: the result is
  \<^verbatim>\<open>Clean\<close> of the path behind two slashes, which is absolute and cleaned (no empty, \<^verbatim>\<open>.\<close>
  or \<^verbatim>\<open>..\<close> element).
\<close>

theorem normalizePath_cases:
  "(IsBundledPath (bundledManager v) p \<longrightarrow> normalizePath v p = p) \<and>
   (\<not> IsBundledPath (bundledManager v) p \<and> IsAbs p \<longrightarrow> normalizePath v p = p) \<and>
   (\<not> IsBundledPath (bundledManager v) p \<and> \<not> IsAbs p \<longrightarrow>
      normalizePath v p = Clean (''//'' @ p) \<and> IsAbs (normalizePath v p) \<and>
      cleaned_abs (normalizePath v p))"
proof -
  have abs: "IsAbs (''//'' @ p)" by (simp add: IsAbs_def HasPrefix_def)
  have j: "Join [''/'', p] = Clean (''//'' @ p)" by simp
  have c: "cleaned_abs (Clean (''//'' @ p))" using Clean_cleaned_abs[OF abs] .
  then have "IsAbs (Clean (''//'' @ p))" by (simp add: cleaned_abs_def)
  with c j show ?thesis unfolding normalizePath_def by simp
qed

text \<open>
  The three cases on the hybrid instance: a bundled URL, an absolute path with a \<^verbatim>\<open>..\<close>
  element, a relative path.
\<close>

theorem normalizePath_cases_witness:
  "normalizePath ref_hybrid ''stdlib://core.go'' = ''stdlib://core.go'' \<and>
   normalizePath ref_hybrid ''/x/../y.txt'' = ''/x/../y.txt'' \<and>
   normalizePath ref_hybrid ''a/../b.txt'' = ''/b.txt'' \<and> cleaned_abs ''/b.txt''"
proof -
  have b: "bundled (bundledManager ref_hybrid) = [(''stdlib://'', snd (hd (bundled (bundledManager ref_hybrid))))]"
    using ref_hybrid_keys by (cases "bundled (bundledManager ref_hybrid)") auto
  have 1: "IsBundledPath (bundledManager ref_hybrid) ''stdlib://core.go''"
    unfolding IsBundledPath_def by (subst b) (simp add: HasPrefix_def)
  have 2: "\<not> IsBundledPath (bundledManager ref_hybrid) ''/x/../y.txt'' \<and> IsAbs ''/x/../y.txt''"
    unfolding IsBundledPath_def by (subst b) (simp add: HasPrefix_def IsAbs_def)
  have 3: "\<not> IsBundledPath (bundledManager ref_hybrid) ''a/../b.txt'' \<and> \<not> IsAbs ''a/../b.txt''"
    unfolding IsBundledPath_def by (subst b) (simp add: HasPrefix_def IsAbs_def)
  have 4: "Clean (''//'' @ ''a/../b.txt'') = ''/b.txt''"
    by (simp add: Clean_def clean_step_def)
  have n1: "normalizePath ref_hybrid ''stdlib://core.go'' = ''stdlib://core.go''"
    using normalizePath_cases[of ref_hybrid "''stdlib://core.go''"] 1 by blast
  have n2: "normalizePath ref_hybrid ''/x/../y.txt'' = ''/x/../y.txt''"
    using normalizePath_cases[of ref_hybrid "''/x/../y.txt''"] 2 by blast
  have n3: "normalizePath ref_hybrid ''a/../b.txt'' = Clean (''//'' @ ''a/../b.txt'') \<and>
      cleaned_abs (normalizePath ref_hybrid ''a/../b.txt'')"
    using normalizePath_cases[of ref_hybrid "''a/../b.txt''"] 3 by blast
  then have n3': "normalizePath ref_hybrid ''a/../b.txt'' = ''/b.txt''"
    using 4 by (simp only:)
  with n3 have "cleaned_abs ''/b.txt''" by (simp only:)
  with n1 n2 n3' show ?thesis by (simp only: simp_thms)
qed

text \<open>
  Claim C3 as stated fails: the absolute path \<^verbatim>\<open>/a/../b.txt\<close> is not bundled, and
  \<^verbatim>\<open>normalizePath\<close> returns it as it is, not the cleaned \<^verbatim>\<open>/b.txt\<close>.
\<close>

theorem normalizePath_absolute_not_cleaned:
  "\<not> IsBundledPath (bundledManager ref_memory) ''/a/../b.txt'' \<and>
   normalizePath ref_memory ''/a/../b.txt'' = ''/a/../b.txt'' \<and>
   normalizePath ref_memory ''/a/../b.txt'' \<noteq> ''/b.txt'' \<and>
   Clean ''/a/../b.txt'' = ''/b.txt''"
  by (simp add: normalizePath_def IsBundledPath_def ref_memory_bundled IsAbs_def HasPrefix_def
      Clean_def clean_step_def)

section \<open>Bundled paths are read-only\<close>

lemma ref_hybrid_bundled:
  "bundled (bundledManager ref_hybrid) =
     [(''stdlib://'', \<lparr>embedFS = ref_archive [112], prefix = ''stdlib'', subdir = ''stdlib''\<rparr>)]"
  by (simp add: ref_hybrid_def RegisterBundled_def Register_def NewHybridVFS_def New_def
      NewBundledManager_def HasSuffix_def TrimSuffix_def Let_def)

text \<open>
  Claim C1.  On a path that the registry classifies as bundled, each of \<^verbatim>\<open>WriteFile\<close>,
  \<^verbatim>\<open>MkdirAll\<close>, \<^verbatim>\<open>Remove\<close> and \<^verbatim>\<open>RemoveAll\<close> returns its read-only error, and the
  instance afterwards is the instance before: store and registry are untouched.
\<close>

theorem bundled_path_is_read_only:
  assumes "IsBundledPath (bundledManager v) p"
  shows "WriteFile v p data perm = (Some (Errorf (''cannot write to bundled URL: '' @ p)), v) \<and>
         MkdirAll v p perm = (Some (Errorf (''cannot create directories in bundled URL: '' @ p)), v) \<and>
         Remove v p = (Some (Errorf (''cannot remove bundled URL: '' @ p)), v) \<and>
         RemoveAll v p = (Some (Errorf (''cannot remove bundled URL: '' @ p)), v)"
  using assms by (simp add: WriteFile_def MkdirAll_def Remove_def RemoveAll_def)

text \<open>The four calls on \<^verbatim>\<open>stdlib://core.go\<close> of the hybrid instance.\<close>

theorem bundled_path_is_read_only_witness:
  "IsBundledPath (bundledManager ref_hybrid) ''stdlib://core.go'' \<and>
   WriteFile ref_hybrid ''stdlib://core.go'' [1] 420 =
     (Some (Errorf ''cannot write to bundled URL: stdlib://core.go''), ref_hybrid) \<and>
   MkdirAll ref_hybrid ''stdlib://core.go'' 493 =
     (Some (Errorf ''cannot create directories in bundled URL: stdlib://core.go''), ref_hybrid) \<and>
   Remove ref_hybrid ''stdlib://core.go'' =
     (Some (Errorf ''cannot remove bundled URL: stdlib://core.go''), ref_hybrid) \<and>
   RemoveAll ref_hybrid ''stdlib://core.go'' =
     (Some (Errorf ''cannot remove bundled URL: stdlib://core.go''), ref_hybrid)"
proof -
  have b: "IsBundledPath (bundledManager ref_hybrid) ''stdlib://core.go''"
    by (simp add: IsBundledPath_def ref_hybrid_bundled HasPrefix_def)
  show ?thesis
    using b bundled_path_is_read_only[OF b, of "[1]" 420]
      bundled_path_is_read_only[OF b, of "[1]" 493]
    by simp
qed

section \<open>Matching watch patterns\<close>

text \<open>
  Claim C5.  \<^verbatim>\<open>pathMatches\<close> is true exactly when the event path equals the pattern, or
  the pattern is the root, or the event path starts with the pattern followed by a slash,
  or the glob matcher reports a match without error; in every other case it is false.
\<close>

theorem pathMatches_rules:
  "pathMatches Match filePath watchPath =
     (filePath = watchPath \<or> watchPath = ''/'' \<or> HasPrefix filePath (watchPath @ ''/'') \<or>
      Match watchPath filePath = (True, None))"
  by (cases "Match watchPath filePath") (auto simp: pathMatches_def split: option.splits)

text \<open>One event per rule, a pattern that matches nothing, and a malformed pattern.\<close>

theorem pathMatches_rules_witness:
  "pathMatches ref_Match ''/src/main.go'' ''/src/main.go'' \<and>
   pathMatches ref_Match ''/src/main.go'' ''/'' \<and>
   pathMatches ref_Match ''/src/main.go'' ''/src'' \<and>
   pathMatches ref_Match ''/main.go'' ''/*.go'' \<and>
   \<not> pathMatches ref_Match ''/src/main.go'' ''/sr'' \<and>
   \<not> pathMatches ref_Match ''/src/main.go'' ''[bad''"
  unfolding pathMatches_rules by (simp add: ref_Match_def HasPrefix_def)

section \<open>Registration\<close>

lemma Register_bundled:
  "bundled (snd (Register bm pfx a sub)) =
     AList.update (registry_key pfx)
       \<lparr>embedFS = a, prefix = TrimSuffix (registry_key pfx) ''://'', subdir = sub\<rparr> (bundled bm)"
  by (simp add: Register_def registry_key_def Let_def)

lemma Register_no_error: "fst (Register bm pfx a sub) = None"
  by (simp add: Register_def Let_def)

text \<open>
  Claim C7, as the code has it.  \<^verbatim>\<open>Register\<close> returns no error.  Registering a prefix
  again keeps the keys and replaces the entry.  A path under the prefix resolves to the new
  archive and subdirectory when no other key that the loop visits is a prefix of the path;
  and whatever the order of the loop, a resolution through this key gives the new entry,
  never the replaced one.
\<close>

theorem Register_last_wins:
  "fst (Register bm pfx a1 s1) = None \<and>
   fst (Register (snd (Register bm pfx a1 s1)) pfx a2 s2) = None \<and>
   map fst (bundled (snd (Register (snd (Register bm pfx a1 s1)) pfx a2 s2))) =
     map fst (bundled (snd (Register bm pfx a1 s1))) \<and>
   map_of (bundled (snd (Register (snd (Register bm pfx a1 s1)) pfx a2 s2))) (registry_key pfx) =
     Some \<lparr>embedFS = a2, prefix = TrimSuffix (registry_key pfx) ''://'', subdir = s2\<rparr> \<and>
   (\<forall>ks path.
      range_order (snd (Register (snd (Register bm pfx a1 s1)) pfx a2 s2)) ks \<and>
      HasPrefix path (registry_key pfx) \<and>
      (\<forall>k\<in>set ks. k \<noteq> registry_key pfx \<longrightarrow> \<not> HasPrefix path k) \<longrightarrow>
      GetBundledFS ks (snd (Register (snd (Register bm pfx a1 s1)) pfx a2 s2)) path =
        Some (\<lparr>embedFS = a2, prefix = TrimSuffix (registry_key pfx) ''://'', subdir = s2\<rparr>,
              TrimPrefix path (registry_key pfx))) \<and>
   (\<forall>ks path b r.
      GetBundledFS ks (snd (Register (snd (Register bm pfx a1 s1)) pfx a2 s2)) path = Some (b, r) \<longrightarrow>
      (\<exists>k. HasPrefix path k \<and> r = TrimPrefix path k \<and>
           map_of (bundled (snd (Register (snd (Register bm pfx a1 s1)) pfx a2 s2))) k = Some b \<and>
           (k = registry_key pfx \<longrightarrow>
              b = \<lparr>embedFS = a2, prefix = TrimSuffix (registry_key pfx) ''://'', subdir = s2\<rparr>)))"
proof -
  let ?key = "registry_key pfx"
  let ?bm1 = "snd (Register bm pfx a1 s1)"
  let ?bm2 = "snd (Register ?bm1 pfx a2 s2)"
  let ?new = "\<lparr>embedFS = a2, prefix = TrimSuffix ?key ''://'', subdir = s2\<rparr>"
  have in1: "?key \<in> fst ` set (bundled ?bm1)"
    by (simp add: Register_bundled dom_update)
  have keys: "map fst (bundled ?bm2) = map fst (bundled ?bm1)"
    using in1 by (simp add: Register_bundled[of ?bm1] update_keys)
  have look: "map_of (bundled ?bm2) ?key = Some ?new"
    by (simp add: Register_bundled[of ?bm1] update_conv')
  have only: "GetBundledFS ks ?bm2 path = Some (?new, TrimPrefix path ?key)"
    if "range_order ?bm2 ks" "HasPrefix path ?key"
      "\<forall>k\<in>set ks. k \<noteq> ?key \<longrightarrow> \<not> HasPrefix path k" for ks path
  proof -
    have "?key \<in> set ks" using that(1) keys in1 by (simp add: range_order_def)
    then show ?thesis using look that(2,3) by (intro GetBundledFS_only) auto
  qed
  have never_old: "\<exists>k. HasPrefix path k \<and> r = TrimPrefix path k \<and>
      map_of (bundled ?bm2) k = Some b \<and> (k = ?key \<longrightarrow> b = ?new)"
    if "GetBundledFS ks ?bm2 path = Some (b, r)" for ks path b r
  proof -
    from GetBundledFS_SomeD[OF that] obtain k where
      k: "map_of (bundled ?bm2) k = Some b" "HasPrefix path k" "r = TrimPrefix path k" by blast
    then show ?thesis using look by auto
  qed
  show ?thesis
    using Register_no_error keys look only never_old by blast
qed

lemma overlap_registry_bundled:
  "bundled overlap_registry =
     [(''a://'', \<lparr>embedFS = ref_archive [1], prefix = ''a'', subdir = ''stdlib''\<rparr>),
      (''a://b://'', \<lparr>embedFS = ref_archive [3], prefix = ''a://b'', subdir = ''stdlib''\<rparr>)]"
  by (simp add: overlap_registry_def Register_def NewBundledManager_def HasSuffix_def
      TrimSuffix_def Let_def)

text \<open>Registering \<^verbatim>\<open>stdlib\<close> twice, then resolving \<^verbatim>\<open>stdlib://core.go\<close>.\<close>

theorem Register_last_wins_witness:
  "fst (Register NewBundledManager ''stdlib'' (ref_archive [1]) ''stdlib'') = None \<and>
   range_order (snd (Register (snd (Register NewBundledManager ''stdlib'' (ref_archive [1]) ''stdlib''))
                       ''stdlib'' (ref_archive [2]) ''lib'')) [''stdlib://''] \<and>
   GetBundledFS [''stdlib://'']
     (snd (Register (snd (Register NewBundledManager ''stdlib'' (ref_archive [1]) ''stdlib''))
             ''stdlib'' (ref_archive [2]) ''lib'')) ''stdlib://core.go'' =
     Some (\<lparr>embedFS = ref_archive [2], prefix = ''stdlib'', subdir = ''lib''\<rparr>, ''core.go'')"
proof -
  let ?bm2 = "snd (Register (snd (Register NewBundledManager ''stdlib'' (ref_archive [1]) ''stdlib''))
                       ''stdlib'' (ref_archive [2]) ''lib'')"
  have key: "registry_key ''stdlib'' = ''stdlib://''"
    by (simp add: registry_key_def HasSuffix_def)
  have ro: "range_order ?bm2 [''stdlib://'']"
    by (simp add: range_order_def Register_def NewBundledManager_def HasSuffix_def Let_def)
  have hp: "HasPrefix ''stdlib://core.go'' (registry_key ''stdlib'')"
    by (simp add: key HasPrefix_def)
  have tp: "TrimPrefix ''stdlib://core.go'' ''stdlib://'' = ''core.go''"
    by (simp add: TrimPrefix_def HasPrefix_def)
  have ts: "TrimSuffix ''stdlib://'' ''://'' = ''stdlib''"
    by (simp add: TrimSuffix_def HasSuffix_def)
  have "GetBundledFS [''stdlib://''] ?bm2 ''stdlib://core.go'' =
      Some (\<lparr>embedFS = ref_archive [2], prefix = TrimSuffix (registry_key ''stdlib'') ''://'',
              subdir = ''lib''\<rparr>, TrimPrefix ''stdlib://core.go'' (registry_key ''stdlib''))"
    using Register_last_wins[of NewBundledManager "''stdlib''" "ref_archive [1]" "''stdlib''"
        "ref_archive [2]" "''lib''"] ro hp key
    by auto
  then show ?thesis using ro Register_no_error key tp ts by (simp only: simp_thms)
qed

text \<open>
  Claim C7 as stated fails when a second registered prefix is a prefix of the path too.
  With \<^verbatim>\<open>a\<close> registered and \<^verbatim>\<open>a://b\<close> registered twice, the path \<^verbatim>\<open>a://b://core.go\<close> lies
  under the key of \<^verbatim>\<open>a://b\<close>; a loop that visits the key of \<^verbatim>\<open>a\<close> first resolves it to the
  archive of \<^verbatim>\<open>a\<close>, not to the archive registered last for \<^verbatim>\<open>a://b\<close>.
\<close>

theorem resolution_with_overlapping_prefixes:
  "range_order overlap_registry [''a://'', ''a://b://''] \<and>
   HasPrefix ''a://b://core.go'' (registry_key ''a://b'') \<and>
   map_of (bundled overlap_registry) (registry_key ''a://b'') =
     Some \<lparr>embedFS = ref_archive [3], prefix = ''a://b'', subdir = ''stdlib''\<rparr> \<and>
   GetBundledFS [''a://'', ''a://b://''] overlap_registry ''a://b://core.go'' =
     Some (\<lparr>embedFS = ref_archive [1], prefix = ''a'', subdir = ''stdlib''\<rparr>, ''b://core.go'') \<and>
   embed_ReadFile (ref_archive [1]) ''stdlib/core.go'' \<noteq> embed_ReadFile (ref_archive [3]) ''stdlib/core.go''"
  by (simp add: range_order_def overlap_registry_bundled registry_key_def HasPrefix_def
      HasSuffix_def TrimPrefix_def ref_archive_def)

section \<open>Instances without a watch subsystem\<close>

lemma apply_options_last_type:
  "snd (foldl apply_option init (opts @ [WithType ty])) = ty"
proof -
  obtain r t where "foldl apply_option init opts = (r, t)" by (cases "foldl apply_option init opts")
  then show ?thesis by simp
qed

lemma New_not_disk:
  assumes "vfsType (New P opts) \<noteq> VFSTypeDisk"
  shows "watchManager (New P opts) = None"
proof -
  obtain r t where rt: "foldl apply_option (''/'', VFSTypeMemory) opts = (r, t)"
    by (cases "foldl apply_option (''/'', VFSTypeMemory) opts")
  with assms show ?thesis unfolding New_def by (cases t) (simp_all add: Let_def)
qed

lemma New_no_watchManager:
  assumes "ty \<noteq> VFSTypeDisk"
  shows "watchManager (New P (opts @ [WithType ty])) = None"
proof -
  obtain r t where rt: "foldl apply_option (''/'', VFSTypeMemory) (opts @ [WithType ty]) = (r, t)"
    by (cases "foldl apply_option (''/'', VFSTypeMemory) (opts @ [WithType ty])")
  with apply_options_last_type[of "(''/'', VFSTypeMemory)" opts ty] have "t = ty" by simp
  with rt assms show ?thesis unfolding New_def by (cases ty) simp_all
qed

lemma WriteFile_fields:
  "WriteFile v p d m = (e, v') \<Longrightarrow>
   afero v' = afero v \<and> root v' = root v \<and> vfsType v' = vfsType v \<and>
   bundledManager v' = bundledManager v \<and> watchManager v' = watchManager v \<and>
   diskPath v' = diskPath v"
  by (auto simp: WriteFile_def Let_def split: if_splits prod.splits option.splits)

lemma Clone_walkFn_fields:
  "Clone_walkFn ks v c x = (e, c') \<Longrightarrow>
   afero c' = afero c \<and> root c' = root c \<and> vfsType c' = vfsType c \<and>
   bundledManager c' = bundledManager c \<and> watchManager c' = watchManager c \<and>
   diskPath c' = diskPath c"
  unfolding Clone_walkFn_def
  by (cases x) (auto split: if_splits sum.splits dest: WriteFile_fields)

lemma walk_run_fields:
  "walk_run (Clone_walkFn ks v) c xs = (e, c') \<Longrightarrow>
   afero c' = afero c \<and> root c' = root c \<and> vfsType c' = vfsType c \<and>
   bundledManager c' = bundledManager c \<and> watchManager c' = watchManager c \<and>
   diskPath c' = diskPath c"
proof (induction xs arbitrary: c)
  case Nil
  then show ?case by simp
next
  case (Cons x xs)
  obtain e1 c1 where s: "Clone_walkFn ks v c x = (e1, c1)" by (cases "Clone_walkFn ks v c x")
  note f = Clone_walkFn_fields[OF s]
  show ?case
  proof (cases e1)
    case None
    with Cons.prems s have "walk_run (Clone_walkFn ks v) c1 xs = (e, c')" by simp
    from Cons.IH[OF this] f show ?thesis by simp
  next
    case (Some a)
    with Cons.prems s have "c' = c1" by simp
    with f show ?thesis by simp
  qed
qed

lemma Clone_fields:
  "afero (Clone P ks v) = fst (NewMemMapFs P) \<and> root (Clone P ks v) = root v \<and>
   vfsType (Clone P ks v) = VFSTypeMemory \<and> bundledManager (Clone P ks v) = bundledManager v \<and>
   watchManager (Clone P ks v) = None"
proof -
  obtain e c where ec: "Clone_copy P ks v = (e, c)" by (cases "Clone_copy P ks v")
  then have "walk_run (Clone_walkFn ks v) (Clone_init P v) (walk_visits ks v ''/'') = (e, c)"
    by (simp add: Clone_copy_def Walk_def)
  from walk_run_fields[OF this] ec show ?thesis by (simp add: Clone_def Clone_init_def)
qed

lemma New_type: "vfsType (New P (opts @ [WithType ty])) = ty"
proof -
  obtain r t where rt: "foldl apply_option (''/'', VFSTypeMemory) (opts @ [WithType ty]) = (r, t)"
    by (cases "foldl apply_option (''/'', VFSTypeMemory) (opts @ [WithType ty])")
  with apply_options_last_type[of "(''/'', VFSTypeMemory)" opts ty] have "t = ty" by simp
  with rt show ?thesis unfolding New_def by (cases ty) (simp_all add: Let_def)
qed

text \<open>No operation of the facade touches the type or the watch manager of an instance
  that has none.\<close>

lemma MkdirAll_fields:
  "MkdirAll v p m = (e, v') \<Longrightarrow>
   vfsType v' = vfsType v \<and> watchManager v' = watchManager v \<and>
   bundledManager v' = bundledManager v \<and> afero v' = afero v"
  by (auto simp: MkdirAll_def Let_def split: if_splits prod.splits)

lemma Remove_fields:
  "Remove v p = (e, v') \<Longrightarrow>
   vfsType v' = vfsType v \<and> watchManager v' = watchManager v \<and>
   bundledManager v' = bundledManager v \<and> afero v' = afero v"
  by (auto simp: Remove_def Let_def split: if_splits prod.splits)

lemma RemoveAll_fields:
  "RemoveAll v p = (e, v') \<Longrightarrow>
   vfsType v' = vfsType v \<and> watchManager v' = watchManager v \<and>
   bundledManager v' = bundledManager v \<and> afero v' = afero v"
  by (auto simp: RemoveAll_def Let_def split: if_splits prod.splits)

lemma Copy_fields:
  "Copy ks1 ks2 v src dst = (e, v') \<Longrightarrow>
   afero v' = afero v \<and> bundledManager v' = bundledManager v \<and>
   vfsType v' = vfsType v \<and> watchManager v' = watchManager v"
  unfolding Copy_def by (auto split: sum.splits dest: WriteFile_fields)

lemma Move_fields:
  assumes "Move ks1 ks2 v src dst = (e, v')"
  shows "vfsType v' = vfsType v \<and> watchManager v' = watchManager v"
proof -
  obtain e1 v1 where c: "Copy ks1 ks2 v src dst = (e1, v1)" by (cases "Copy ks1 ks2 v src dst")
  note f = Copy_fields[OF c]
  show ?thesis
  proof (cases e1)
    case None
    with assms c have "Remove v1 src = (e, v')" by (simp add: Move_def)
    from Remove_fields[OF this] f show ?thesis by simp
  next
    case (Some err)
    with assms c have "v' = v1" by (simp add: Move_def)
    with f show ?thesis by simp
  qed
qed

lemma RegisterBundled_fields:
  "RegisterBundled v pfx efs sub = (e, v') \<Longrightarrow>
   vfsType v' = vfsType v \<and> watchManager v' = watchManager v"
  by (auto simp: RegisterBundled_def split: prod.splits)

lemma walk_run_keeps:
  assumes "\<And>a x e a'. walkFn a x = (e, a') \<Longrightarrow> I a \<Longrightarrow> I a'"
    and "I a" and "walk_run walkFn a xs = (e, a')"
  shows "I a'"
  using assms(2,3)
proof (induction xs arbitrary: a)
  case Nil
  then show ?case by simp
next
  case (Cons x xs)
  obtain e1 a1 where s: "walkFn a x = (e1, a1)" by (cases "walkFn a x")
  from assms(1)[OF s Cons.prems(1)] have i1: "I a1" .
  show ?case
  proof (cases e1)
    case None
    with Cons.prems(2) s have "walk_run walkFn a1 xs = (e, a')" by simp
    from Cons.IH[OF i1 this] show ?thesis .
  next
    case (Some err)
    with Cons.prems(2) s have "a' = a1" by simp
    with i1 show ?thesis by simp
  qed
qed

lemma Merge_walkFn_fields:
  assumes "Merge_walkFn ks other destPath v x = (e, v')"
  shows "vfsType v' = vfsType v \<and> watchManager v' = watchManager v"
proof (cases x)
  case (VisitError path info err)
  with assms show ?thesis by (simp add: Merge_walkFn_def)
next
  case (Visit path info)
  let ?mp = "Join [destPath, TrimPrefix path ''/'']"
  obtain e1 v1 where m: "MkdirAll v (Dir ?mp) perm_0755 = (e1, v1)"
    by (cases "MkdirAll v (Dir ?mp) perm_0755")
  note f1 = MkdirAll_fields[OF m]
  show ?thesis
  proof (cases "info_IsDir info")
    case True
    with assms Visit show ?thesis by (simp add: Merge_walkFn_def)
  next
    case False
    show ?thesis
    proof (cases "ReadFile ks other path")
      case (Inl readErr)
      with assms Visit False show ?thesis by (simp add: Merge_walkFn_def)
    next
      case (Inr data)
      show ?thesis
      proof (cases e1)
        case (Some err)
        with assms Visit False Inr m have "v' = v1" by (simp add: Merge_walkFn_def)
        with f1 show ?thesis by simp
      next
        case None
        with assms Visit False Inr m have "WriteFile v1 ?mp data (info_Mode info) = (e, v')"
          by (simp add: Merge_walkFn_def)
        from WriteFile_fields[OF this] f1 show ?thesis by simp
      qed
    qed
  qed
qed

lemma Merge_fields:
  assumes "Merge ks1 ks2 v other destPath = (e, v')"
  shows "vfsType v' = vfsType v \<and> watchManager v' = watchManager v"
proof -
  from assms have r: "walk_run (Merge_walkFn ks2 other destPath) v (walk_visits ks1 other ''/'') = (e, v')"
    by (simp add: Merge_def Walk_def)
  show ?thesis
    by (rule walk_run_keeps[where I = "\<lambda>u. vfsType u = vfsType v \<and> watchManager u = watchManager v",
          OF _ _ r]) (auto dest: Merge_walkFn_fields)
qed

lemma no_watchManager_calls:
  assumes "watchManager v = None"
  shows "Watch P v path action = (Some (Errorf ''watching is only available for disk-based VFS''), v)"
    and "StopWatch P v path = (Some (Errorf ''watching is only available for disk-based VFS''), v)"
    and "StopAllWatches P v = (Some (Errorf ''watching is only available for disk-based VFS''), v)"
    and "Close P v = (None, v)"
    and "\<not> IsWatching v path"
  using assms by (simp_all add: Watch_def StopWatch_def StopAllWatches_def Close_def IsWatching_def)

lemma memory_or_hybrid_fields:
  "memory_or_hybrid P v \<Longrightarrow> watchManager v = None \<and> vfsType v \<noteq> VFSTypeDisk"
proof (induction rule: memory_or_hybrid.induct)
  case (by_New opts)
  then show ?case by (simp add: New_not_disk)
next
  case (by_NewMemoryVFS opts)
  show ?case by (simp add: NewMemoryVFS_def New_no_watchManager New_type)
next
  case (by_NewHybridVFS opts)
  show ?case by (simp add: NewHybridVFS_def New_no_watchManager New_type)
next
  case (by_Clone ks v0)
  show ?case by (simp add: Clone_fields)
next
  case (after_RegisterBundled v pfx efs sub)
  then show ?case
    using RegisterBundled_fields[of v pfx efs sub] by (metis prod.collapse)
next
  case (after_WriteFile v p b m)
  then show ?case using WriteFile_fields[of v p b m] by (metis prod.collapse)
next
  case (after_MkdirAll v p m)
  then show ?case using MkdirAll_fields[of v p m] by (metis prod.collapse)
next
  case (after_Remove v p)
  then show ?case using Remove_fields[of v p] by (metis prod.collapse)
next
  case (after_RemoveAll v p)
  then show ?case using RemoveAll_fields[of v p] by (metis prod.collapse)
next
  case (after_Copy v ks1 ks2 src dst)
  then show ?case using Copy_fields[of ks1 ks2 v src dst] by (metis prod.collapse)
next
  case (after_Move v ks1 ks2 src dst)
  then show ?case using Move_fields[of ks1 ks2 v src dst] by (metis prod.collapse)
next
  case (after_Merge v ks1 ks2 other destPath)
  then show ?case using Merge_fields[of ks1 ks2 v other destPath] by (metis prod.collapse)
next
  case (after_Watch v path action)
  then show ?case by (simp add: no_watchManager_calls)
next
  case (after_StopWatch v path)
  then show ?case by (simp add: no_watchManager_calls)
next
  case (after_StopAllWatches v)
  then show ?case by (simp add: no_watchManager_calls)
next
  case (after_Close v)
  then show ?case by (simp add: no_watchManager_calls)
next
  case (through_store v s)
  then show ?case by simp
qed

text \<open>
  Claim C8.  Every memory or hybrid instance (built by \<^verbatim>\<open>New\<close> with a type other than
  disk, by \<^verbatim>\<open>NewMemoryVFS\<close> or \<^verbatim>\<open>NewHybridVFS\<close>, or by \<^verbatim>\<open>Clone\<close>, and then taken
  through any operations of the facade) has a type other than disk and no watch manager;
  on it \<^verbatim>\<open>Watch\<close>, \<^verbatim>\<open>StopWatch\<close> and \<^verbatim>\<open>StopAllWatches\<close> return the fixed error and
  leave the instance unchanged, and \<^verbatim>\<open>IsWatching\<close> is false for every path.  The calls
  return: none of them panics.
\<close>

theorem watch_calls_without_watch_subsystem:
  assumes "memory_or_hybrid P v"
  shows "vfsType v \<noteq> VFSTypeDisk \<and> watchManager v = None \<and>
         Watch P v pat action = (Some (Errorf ''watching is only available for disk-based VFS''), v) \<and>
         StopWatch P v pat = (Some (Errorf ''watching is only available for disk-based VFS''), v) \<and>
         StopAllWatches P v = (Some (Errorf ''watching is only available for disk-based VFS''), v) \<and>
         IsWatching v pat = False"
  using memory_or_hybrid_fields[OF assms] by (simp add: no_watchManager_calls)

text \<open>
  The watch calls on the hybrid instance with an archive registered, after a file was
  written to it and removed again.
\<close>

theorem watch_calls_without_watch_subsystem_witness:
  "memory_or_hybrid ref_platform
     (snd (Remove (snd (WriteFile ref_hybrid ''/a.txt'' [1] 420)) ''/a.txt'')) \<and>
   vfsType (snd (Remove (snd (WriteFile ref_hybrid ''/a.txt'' [1] 420)) ''/a.txt'')) = VFSTypeHybrid \<and>
   watchManager (snd (Remove (snd (WriteFile ref_hybrid ''/a.txt'' [1] 420)) ''/a.txt'')) = None \<and>
   Watch ref_platform (snd (Remove (snd (WriteFile ref_hybrid ''/a.txt'' [1] 420)) ''/a.txt'')) ''/'' 0 =
     (Some (Errorf ''watching is only available for disk-based VFS''),
      snd (Remove (snd (WriteFile ref_hybrid ''/a.txt'' [1] 420)) ''/a.txt'')) \<and>
   StopWatch ref_platform (snd (Remove (snd (WriteFile ref_hybrid ''/a.txt'' [1] 420)) ''/a.txt'')) ''/'' =
     (Some (Errorf ''watching is only available for disk-based VFS''),
      snd (Remove (snd (WriteFile ref_hybrid ''/a.txt'' [1] 420)) ''/a.txt'')) \<and>
   StopAllWatches ref_platform (snd (Remove (snd (WriteFile ref_hybrid ''/a.txt'' [1] 420)) ''/a.txt'')) =
     (Some (Errorf ''watching is only available for disk-based VFS''),
      snd (Remove (snd (WriteFile ref_hybrid ''/a.txt'' [1] 420)) ''/a.txt'')) \<and>
   IsWatching (snd (Remove (snd (WriteFile ref_hybrid ''/a.txt'' [1] 420)) ''/a.txt'')) ''/'' = False"
proof -
  let ?v = "snd (Remove (snd (WriteFile ref_hybrid ''/a.txt'' [1] 420)) ''/a.txt'')"
  have "memory_or_hybrid ref_platform (NewHybridVFS ref_platform [])"
    by (rule memory_or_hybrid.by_NewHybridVFS)
  then have "memory_or_hybrid ref_platform ref_hybrid"
    unfolding ref_hybrid_def by (rule memory_or_hybrid.after_RegisterBundled)
  then have "memory_or_hybrid ref_platform (snd (WriteFile ref_hybrid ''/a.txt'' [1] 420))"
    by (rule memory_or_hybrid.after_WriteFile)
  then have m: "memory_or_hybrid ref_platform ?v"
    by (rule memory_or_hybrid.after_Remove)
  have ty: "vfsType ?v = VFSTypeHybrid" by code_simp
  from watch_calls_without_watch_subsystem[OF m, of "''/''" 0] m ty show ?thesis by simp
qed

section \<open>Dump and its writer\<close>

text \<open>
  Claim C4.  With the nil writer the first \<^verbatim>\<open>io.WriteString\<close> of \<^verbatim>\<open>Dump\<close> panics: the call
  does not return an error.
\<close>

theorem Dump_nil_writer_panics: "Dump fuel ks ks1 ks2 v NilWriter = Some Panic"
  by (simp add: Dump_def io_WriteString_def)

lemma Clean_root: "Clean ''/'' = ''/''"
  by (simp add: Clean_def clean_step_def)

lemma mem_Walk_empty:
  "mem_Walk ''/'' mem_empty = [Visit ''/'' (mem_info ''/'' (mem_new_dir perm_0755))]"
  by code_simp

text \<open>
  With a writer that fails on every write, \<^verbatim>\<open>Dump\<close> of the empty memory instance
  returns no error: the results of \<^verbatim>\<open>io.WriteString\<close> are not looked at.
\<close>

theorem Dump_broken_writer_reports_success:
  "Dump 1 [] [] [] ref_memory (BrokenWriter err) = Some (Returns (None, BrokenWriter err))"
proof -
  have nb: "\<not> IsBundledPath (bundledManager ref_memory) ''/''"
    by (simp add: IsBundledPath_def ref_memory_bundled)
  have w: "walk_visits [] ref_memory ''/'' = mem_Walk ''/'' mem_empty"
    using nb by (simp add: walk_visits_def normalizePath_def IsAbs_def HasPrefix_def
        ref_memory_def NewMemoryVFS_def New_def ref_platform_def MemMapFs_def)
  have t: "Walk [] ref_memory ''/'' Dump_walkFn [] = (None, [])"
    by (simp add: Walk_def w mem_Walk_empty Dump_walkFn_def)
  show ?thesis
    by (simp add: Dump_def io_WriteString_def t tree_get_def sort_Strings_def ListRegistered_def)
qed

section \<open>Clone\<close>

lemma walk_run_append:
  "walk_run f a (pre @ rest) =
     (case walk_run f a pre of
        (Some e, a') \<Rightarrow> (Some e, a')
      | (None, a') \<Rightarrow> walk_run f a' rest)"
proof (induction pre arbitrary: a)
  case Nil
  show ?case by simp
next
  case (Cons x pre)
  obtain e1 a1 where s: "f a x = (e1, a1)" by (cases "f a x")
  show ?case using Cons s by (cases e1) simp_all
qed

text \<open>
  Claim C10.  \<^verbatim>\<open>Clone\<close> returns the instance that the walk has built and drops the error
  of the walk: the result is a memory instance that shares the registry.  The callback
  fails with the walker's error, with the error of reading the file, or with the error of
  writing it into the clone; at the first failure the walk stops, and \<^verbatim>\<open>Clone\<close> returns
  the instance as it is then, without the entries the walk had still to visit.
\<close>

theorem Clone_discards_errors:
  "Clone P ks v = snd (Clone_copy P ks v) \<and>
   vfsType (Clone P ks v) = VFSTypeMemory \<and>
   afero (Clone P ks v) = fst (NewMemMapFs P) \<and>
   bundledManager (Clone P ks v) = bundledManager v \<and>
   watchManager (Clone P ks v) = None \<and>
   (\<forall>c path info err. Clone_walkFn ks v c (VisitError path info err) = (Some err, c)) \<and>
   (\<forall>c path info readErr.
      \<not> info_IsDir info \<and> \<not> IsBundledPath (bundledManager v) path \<and>
      ReadFile ks v path = Inl readErr \<longrightarrow>
      Clone_walkFn ks v c (Visit path info) = (Some readErr, c)) \<and>
   (\<forall>c path info data.
      \<not> info_IsDir info \<and> \<not> IsBundledPath (bundledManager v) path \<and>
      ReadFile ks v path = Inr data \<longrightarrow>
      Clone_walkFn ks v c (Visit path info) = WriteFile c path data (info_Mode info)) \<and>
   (\<forall>pre x post c err c'.
      walk_visits ks v ''/'' = pre @ x # post \<and>
      walk_run (Clone_walkFn ks v) (Clone_init P v) pre = (None, c) \<and>
      Clone_walkFn ks v c x = (Some err, c') \<longrightarrow>
      Clone_copy P ks v = (Some err, c') \<and> Clone P ks v = c')"
proof -
  have stop: "Clone_copy P ks v = (Some err, c') \<and> Clone P ks v = c'"
    if "walk_visits ks v ''/'' = pre @ x # post"
      "walk_run (Clone_walkFn ks v) (Clone_init P v) pre = (None, c)"
      "Clone_walkFn ks v c x = (Some err, c')" for pre x post c err c'
    using that by (simp add: Clone_def Clone_copy_def Walk_def walk_run_append)
  have cases: "Clone_walkFn ks v c (VisitError path info err) = (Some err, c)" for c path info err
    by (simp add: Clone_walkFn_def)
  show ?thesis
    using Clone_fields[of P ks v] stop cases
    by (simp add: Clone_def Clone_walkFn_def)
qed

text \<open>
  On the instance whose walk fails after \<^verbatim>\<open>/a.txt\<close>: the walk ends with the error, the
  clone holds \<^verbatim>\<open>/a.txt\<close> and lacks \<^verbatim>\<open>/c.txt\<close>, which the original has.
\<close>

lemma ref_faulty_copy:
  "fst (Clone_copy ref_platform [] ref_faulty) = Some (LibError ''permission denied'') \<and>
   ReadFile [] (snd (Clone_copy ref_platform [] ref_faulty)) ''/a.txt'' = Inr [1] \<and>
   ReadFile [] ref_faulty ''/c.txt'' = Inr [3] \<and>
   ReadFile [] (snd (Clone_copy ref_platform [] ref_faulty)) ''/c.txt'' =
     Inl (PathError ''open'' ''/c.txt'' (LibError ''file does not exist''))"
  by code_simp

theorem Clone_discards_errors_witness:
  "fst (Clone_copy ref_platform [] ref_faulty) = Some (LibError ''permission denied'') \<and>
   vfsType (Clone ref_platform [] ref_faulty) = VFSTypeMemory \<and>
   ReadFile [] (Clone ref_platform [] ref_faulty) ''/a.txt'' = Inr [1] \<and>
   ReadFile [] ref_faulty ''/c.txt'' = Inr [3] \<and>
   ReadFile [] (Clone ref_platform [] ref_faulty) ''/c.txt'' =
     Inl (PathError ''open'' ''/c.txt'' (LibError ''file does not exist''))"
proof -
  have c: "Clone ref_platform [] ref_faulty = snd (Clone_copy ref_platform [] ref_faulty)"
    and t: "vfsType (Clone ref_platform [] ref_faulty) = VFSTypeMemory"
    using Clone_discards_errors[of ref_platform "[]" ref_faulty] by blast+
  show ?thesis using ref_faulty_copy t unfolding c by blast
qed

section \<open>The facade on paths that are not bundled\<close>

lemma split_slash_double:
  "[] \<in> set (tl (split_slash (x @ CHR ''/'' # CHR ''/'' # r)))"
proof (induction x)
  case Nil
  show ?case by simp
next
  case (Cons c x)
  obtain s ss where ss: "split_slash (x @ CHR ''/'' # CHR ''/'' # r) = s # ss"
    using split_slash_nonempty by (cases "split_slash (x @ CHR ''/'' # CHR ''/'' # r)") auto
  with Cons have "[] \<in> set ss" by simp
  with ss show ?case by simp
qed

lemma cleaned_abs_no_scheme:
  assumes "cleaned_abs a" and "HasSuffix k ''://''" and "HasPrefix a k"
  shows False
proof -
  define k0 where "k0 = take (length k - length ''://'') k"
  define r where "r = drop (length k) a"
  from assms(2) have d: "drop (length k - length ''://'') k = ''://''"
    by (simp add: HasSuffix_def)
  have "take (length k - length ''://'') k @ drop (length k - length ''://'') k = k"
    by (rule append_take_drop_id)
  with d have k: "k = k0 @ ''://''" unfolding k0_def by (simp only:)
  from assms(3) have "take (length k) a = k" by (simp add: HasPrefix_def)
  moreover have "take (length k) a @ drop (length k) a = a" by (rule append_take_drop_id)
  ultimately have a: "a = k @ r" unfolding r_def by (simp only:)
  have a': "a = (k0 @ '':'') @ CHR ''/'' # CHR ''/'' # r"
    by (subst a, subst k) simp
  obtain c x where cx: "k0 @ '':'' = c # x" by (cases "k0 @ '':''") auto
  have tl: "tl a = x @ CHR ''/'' # CHR ''/'' # r" using a' cx by simp
  have "a \<noteq> ''/''" using a' cx by auto
  with assms(1) have "list_all good_elem (split_slash (tl a))" by (simp add: cleaned_abs_def)
  moreover have "[] \<in> set (split_slash (tl a))"
    using split_slash_double[of x r] tl
    by (metis list.sel(2) list.set_sel(2) split_slash_nonempty)
  ultimately show False by (auto simp: list_all_iff good_elem_def)
qed

lemma cleaned_abs_not_bundled:
  assumes "wf_registry bm" and "cleaned_abs a"
  shows "\<not> IsBundledPath bm a"
proof
  assume "IsBundledPath bm a"
  then obtain k b where kb: "(k, b) \<in> set (bundled bm)" "HasPrefix a k"
    by (auto simp: IsBundledPath_iff)
  with assms(1) have "HasSuffix k ''://''" by (auto simp: wf_registry_def list_all_iff)
  from cleaned_abs_no_scheme[OF assms(2) this kb(2)] show False .
qed

lemma cleaned_abs_IsAbs: "cleaned_abs a \<Longrightarrow> IsAbs a"
  by (simp add: cleaned_abs_def)

lemma normalizePath_abs:
  assumes "\<not> IsBundledPath (bundledManager v) p"
  shows "IsAbs (normalizePath v p)"
proof (cases "IsAbs p")
  case True
  with assms show ?thesis by (simp add: normalizePath_def)
next
  case False
  have "IsAbs (''//'' @ p)" by (simp add: IsAbs_def HasPrefix_def)
  from Clean_cleaned_abs[OF this] have "IsAbs (Clean (''//'' @ p))" by (rule cleaned_abs_IsAbs)
  with assms False show ?thesis by (simp add: normalizePath_def)
qed

lemma normalizePath_cleaned:
  assumes "wf_registry (bundledManager v)" and "cleaned_abs a"
  shows "normalizePath v a = a"
  using cleaned_abs_not_bundled[OF assms] cleaned_abs_IsAbs[OF assms(2)]
  by (simp add: normalizePath_def)

lemma normalizePath_registry:
  "bundledManager v' = bundledManager v \<Longrightarrow> normalizePath v' p = normalizePath v p"
  by (simp add: normalizePath_def)

lemma dropWhile_snoc_last:
  "\<not> P y \<Longrightarrow> dropWhile P (xs @ [y]) \<noteq> [] \<and> last (dropWhile P (xs @ [y])) = y"
  by (induction xs) auto

lemma Dir_cleaned_abs:
  assumes "IsAbs p"
  shows "cleaned_abs (Dir p)"
proof -
  from assms obtain t where p: "p = CHR ''/'' # t"
    by (cases p) (auto simp: IsAbs_def HasPrefix_def)
  let ?d = "dropWhile (\<lambda>c. c \<noteq> CHR ''/'') (rev p)"
  have "?d \<noteq> [] \<and> last ?d = CHR ''/''"
    using dropWhile_snoc_last[of "\<lambda>c. c \<noteq> CHR ''/''" "CHR ''/''" "rev t"] p by simp
  then have "rev ?d \<noteq> [] \<and> hd (rev ?d) = CHR ''/''" by (simp add: hd_rev)
  then have "IsAbs (rev ?d)" by (cases "rev ?d") (auto simp: IsAbs_def HasPrefix_def)
  from Clean_cleaned_abs[OF this] show ?thesis by (simp add: Dir_def)
qed

lemma WriteFile_not_bundled:
  assumes "\<not> IsBundledPath (bundledManager v) p"
  shows "WriteFile v p d m =
     (case afero_MkdirAll (afero v) (Dir (normalizePath v p)) perm_0755 (fs v) of
        (Some err, s1) \<Rightarrow> (Some err, v\<lparr>fs := s1\<rparr>)
      | (None, s1) \<Rightarrow>
          (case afero_WriteFile (afero v) (normalizePath v p) d m s1 of
             (err, s2) \<Rightarrow> (err, v\<lparr>fs := s2\<rparr>)))"
  using assms by (simp add: WriteFile_def Let_def)

lemma WriteFile_NoneD:
  assumes "WriteFile v p d m = (None, v')"
  shows "\<not> IsBundledPath (bundledManager v) p \<and>
     (\<exists>s1 s2. afero_MkdirAll (afero v) (Dir (normalizePath v p)) perm_0755 (fs v) = (None, s1) \<and>
        afero_WriteFile (afero v) (normalizePath v p) d m s1 = (None, s2) \<and> v' = v\<lparr>fs := s2\<rparr>)"
proof -
  have nb: "\<not> IsBundledPath (bundledManager v) p"
    using assms by (auto simp: WriteFile_def)
  obtain e1 s1 where m1: "afero_MkdirAll (afero v) (Dir (normalizePath v p)) perm_0755 (fs v) = (e1, s1)"
    by (cases "afero_MkdirAll (afero v) (Dir (normalizePath v p)) perm_0755 (fs v)")
  obtain e2 s2 where w2: "afero_WriteFile (afero v) (normalizePath v p) d m s1 = (e2, s2)"
    by (cases "afero_WriteFile (afero v) (normalizePath v p) d m s1")
  from assms nb m1 w2 have "e1 = None \<and> e2 = None \<and> v' = v\<lparr>fs := s2\<rparr>"
    by (cases e1) (auto simp: WriteFile_not_bundled)
  with nb m1 w2 show ?thesis by blast
qed

lemma ReadFile_not_bundled:
  "\<not> IsBundledPath (bundledManager v) p \<Longrightarrow>
   ReadFile ks v p = afero_ReadFile (afero v) (normalizePath v p) (fs v)"
  by (simp add: ReadFile_def GetBundledFS_not_bundled)

lemma IsDir_not_bundled:
  "\<not> IsBundledPath (bundledManager v) p \<Longrightarrow>
   IsDir ks v p = is_dir_at (afero v) (fs v) (normalizePath v p)"
  by (simp add: IsDir_def is_dir_at_def GetBundledFS_not_bundled)

lemma MkdirAll_not_bundled:
  "\<not> IsBundledPath (bundledManager v) p \<Longrightarrow>
   MkdirAll v p m =
     (case afero_MkdirAll (afero v) (normalizePath v p) m (fs v) of
        (err, s1) \<Rightarrow> (err, v\<lparr>fs := s1\<rparr>))"
  by (simp add: MkdirAll_def)

text \<open>The laws of a store, one by one.\<close>

lemma store_content_read:
  assumes "store_content A" and "IsAbs p" and "afero_WriteFile A p b m s = (None, s')"
  shows "afero_ReadFile A p s' = Inr b"
proof -
  from assms(1) have "\<forall>p b m s s'. IsAbs p \<longrightarrow> afero_WriteFile A p b m s = (None, s') \<longrightarrow>
      afero_ReadFile A p s' = Inr b"
    unfolding store_content_def by (rule conjunct1)
  with assms(2,3) show ?thesis by blast
qed

lemma store_content_frame:
  assumes "store_content A" and "IsAbs p" and "IsAbs q" and "Clean p \<noteq> Clean q"
    and "afero_WriteFile A q c m s = (e, s')" and "afero_ReadFile A p s = Inr b"
  shows "afero_ReadFile A p s' = Inr b"
proof -
  from assms(1) have "\<forall>p q b c m s e s'. IsAbs p \<longrightarrow> IsAbs q \<longrightarrow> Clean p \<noteq> Clean q \<longrightarrow>
      afero_WriteFile A q c m s = (e, s') \<longrightarrow>
      afero_ReadFile A p s = Inr b \<longrightarrow> afero_ReadFile A p s' = Inr b"
    unfolding store_content_def by (elim conjE)
  with assms(2-6) show ?thesis by blast
qed

lemma store_content_mkdir:
  assumes "store_content A" and "IsAbs p" and "afero_MkdirAll A d m s = (e, s')"
    and "afero_ReadFile A p s = Inr b"
  shows "afero_ReadFile A p s' = Inr b"
proof -
  from assms(1) have "\<forall>p d m s e s' b. IsAbs p \<longrightarrow> afero_MkdirAll A d m s = (e, s') \<longrightarrow>
      afero_ReadFile A p s = Inr b \<longrightarrow> afero_ReadFile A p s' = Inr b"
    unfolding store_content_def by (elim conjE)
  with assms(2-4) show ?thesis by blast
qed

lemma store_content_clean:
  assumes "store_content A" and "IsAbs p"
  shows "(afero_ReadFile A (Clean p) s = Inr b) = (afero_ReadFile A p s = Inr b)"
proof -
  from assms(1) have "\<forall>p s b. IsAbs p \<longrightarrow>
      (afero_ReadFile A (Clean p) s = Inr b) = (afero_ReadFile A p s = Inr b)"
    unfolding store_content_def by (elim conjE)
  with assms(2) show ?thesis by blast
qed



lemma store_tree_mkdir:
  assumes "store_tree A" and "IsAbs d" and "afero_MkdirAll A d m s = (None, s')"
    and "missing_then_dirs A s (rev (path_chain d))" and "a \<in> set (path_chain d)"
  shows "is_dir_at A s' a"
proof -
  from assms(1) have "\<forall>d m s s'. IsAbs d \<longrightarrow> afero_MkdirAll A d m s = (None, s') \<longrightarrow>
      missing_then_dirs A s (rev (path_chain d)) \<longrightarrow>
      (\<forall>a\<in>set (path_chain d). is_dir_at A s' a)"
    unfolding store_tree_def by (rule conjunct1)
  with assms(2-5) show ?thesis by blast
qed

lemma store_tree_write:
  assumes "store_tree A" and "IsAbs p" and "IsAbs a" and "afero_WriteFile A p b m s = (e, s')"
    and "is_dir_at A s a"
  shows "is_dir_at A s' a"
proof -
  from assms(1) have "\<forall>p b m s e s' a. IsAbs p \<longrightarrow> IsAbs a \<longrightarrow>
      afero_WriteFile A p b m s = (e, s') \<longrightarrow> is_dir_at A s a \<longrightarrow> is_dir_at A s' a"
    unfolding store_tree_def by (rule conjunct2)
  with assms(2-5) show ?thesis by blast
qed

section \<open>The registry invariant\<close>

lemma wf_registry_New: "wf_registry (bundledManager (New P opts))"
proof -
  obtain r t where rt: "foldl apply_option (''/'', VFSTypeMemory) opts = (r, t)"
    by (cases "foldl apply_option (''/'', VFSTypeMemory) opts")
  then show ?thesis
    by (cases t) (simp_all add: New_def Let_def wf_registry_def NewBundledManager_def)
qed

lemma registry_key_suffix: "HasSuffix (registry_key pfx) ''://''"
  by (simp add: registry_key_def HasSuffix_def)

lemma set_update_subset: "set (AList.update k v al) \<subseteq> insert (k, v) (set al)"
  by (induction al) auto

lemma wf_registry_Register:
  assumes "wf_registry bm"
  shows "wf_registry (snd (Register bm pfx a sub))"
proof -
  have "\<forall>(k, b)\<in>set (bundled (snd (Register bm pfx a sub))). HasSuffix k ''://''"
    using assms set_update_subset registry_key_suffix[of pfx]
    unfolding Register_bundled wf_registry_def list_all_iff by fastforce
  then show ?thesis by (simp add: wf_registry_def list_all_iff)
qed

lemma wf_registry_RegisterBundled:
  "wf_registry (bundledManager v) \<Longrightarrow>
   wf_registry (bundledManager (snd (RegisterBundled v pfx a sub)))"
  using wf_registry_Register[of "bundledManager v" pfx a sub]
  by (cases "Register (bundledManager v) pfx a sub") (simp add: RegisterBundled_def)

section \<open>A path and the chain of its parent\<close>

lemma Clean_idem: "IsAbs p \<Longrightarrow> Clean (Clean p) = Clean p"
  by (rule cleaned_abs_Clean) (rule Clean_cleaned_abs)

lemma inits_elem: "xs \<in> set (inits ys) \<Longrightarrow> set xs \<subseteq> set ys"
proof (induction ys arbitrary: xs)
  case Nil
  then show ?case by simp
next
  case (Cons y ys)
  from Cons.prems have "xs = [] \<or> (\<exists>zs\<in>set (inits ys). xs = y # zs)" by auto
  then show ?case
  proof
    assume "xs = []"
    then show ?thesis by simp
  next
    assume "\<exists>zs\<in>set (inits ys). xs = y # zs"
    then obtain zs where zs: "zs \<in> set (inits ys)" "xs = y # zs" by blast
    from Cons.IH[OF zs(1)] zs(2) show ?thesis by auto
  qed
qed

lemma path_chain_cleaned: "a \<in> set (path_chain d) \<Longrightarrow> cleaned_abs a"
proof -
  assume "a \<in> set (path_chain d)"
  then obtain segs where s: "segs \<in> set (inits (elems d))" "a = ''/'' @ join_slash segs"
    by (auto simp: path_chain_def)
  from inits_elem[OF s(1)] elems_good[of d] have "\<forall>x\<in>set segs. good_elem x" by blast
  from cleaned_abs_join[OF this] s(2) show ?thesis by simp
qed

lemma split_slash_snoc_part:
  "split_slash (x @ CHR ''/'' # r) = split_slash x @ split_slash r"
proof (induction x)
  case Nil
  show ?case by simp
next
  case (Cons c x)
  obtain s ss where ss: "split_slash x = s # ss"
    using split_slash_nonempty by (cases "split_slash x") auto
  show ?case using Cons ss by simp
qed

lemma elems_Clean: "IsAbs x \<Longrightarrow> elems (Clean x) = elems x"
  using Clean_rooted[of x] elems_join[OF elems_good, of x] by simp

lemma clean_step_empty: "clean_step rooted st [] = st"
  by (simp add: clean_step_def)

lemma clean_step_push: "good_elem l \<Longrightarrow> clean_step rooted st l = l # st"
  unfolding clean_step_def good_elem_def by presburger

text \<open>
  A path whose last element is a proper one: its parent has one element less, so the path
  is not on the chain of its parent.
\<close>

lemma Dir_elems:
  assumes "IsAbs vp" and "good_elem (rev (takeWhile (\<lambda>c. c \<noteq> CHR ''/'') (rev vp)))"
  shows "elems vp = elems (Dir vp) @ [rev (takeWhile (\<lambda>c. c \<noteq> CHR ''/'') (rev vp))]"
proof -
  let ?P = "\<lambda>c. c \<noteq> CHR ''/''"
  let ?l = "rev (takeWhile ?P (rev vp))"
  let ?d = "dropWhile ?P (rev vp)"
  from assms(1) obtain t where vp: "vp = CHR ''/'' # t"
    by (cases vp) (auto simp: IsAbs_def HasPrefix_def)
  have dne: "?d \<noteq> []"
    using dropWhile_snoc_last[of ?P "CHR ''/''" "rev t"] vp by simp
  then have "\<not> ?P (hd ?d)" by (rule hd_dropWhile)
  with dne obtain d' where d: "?d = CHR ''/'' # d'" by (cases ?d) auto
  have "rev vp = takeWhile ?P (rev vp) @ ?d" by simp
  then have "rev (rev vp) = rev (takeWhile ?P (rev vp) @ ?d)" by (rule arg_cong)
  then have split: "vp = rev d' @ CHR ''/'' # ?l" using d by simp
  have pre: "rev ?d = rev d' @ ''/''" using d by simp
  have absd: "IsAbs (rev ?d)"
  proof -
    have "last ?d = CHR ''/''"
      using dropWhile_snoc_last[of ?P "CHR ''/''" "rev t"] vp by simp
    with dne have "hd (rev ?d) = CHR ''/''" by (simp add: hd_rev)
    with dne show ?thesis by (cases "rev ?d") (auto simp: IsAbs_def HasPrefix_def)
  qed
  have nl: "CHR ''/'' \<notin> set ?l" using assms(2) by (rule good_elem_no_slash)
  have e1: "elems (Dir vp) = rev (foldl (clean_step True) [] (split_slash (rev d')))"
  proof -
    have "elems (Dir vp) = elems (rev ?d)" using elems_Clean[OF absd] by (simp add: Dir_def)
    also have "\<dots> = rev (foldl (clean_step True) [] (split_slash (rev d') @ [[]]))"
      unfolding pre elems_def using split_slash_snoc_part[of "rev d'" "[]"] by simp
    finally show ?thesis by (simp add: clean_step_empty)
  qed
  have "elems vp = rev (foldl (clean_step True) [] (split_slash (rev d') @ [?l]))"
    unfolding elems_def
    by (subst split, subst split_slash_snoc_part) (simp add: split_slash_plain[OF nl])
  also have "\<dots> = rev (foldl (clean_step True) [] (split_slash (rev d'))) @ [?l]"
    by (simp add: clean_step_push[OF assms(2)])
  finally show ?thesis using e1 by simp
qed

lemma inits_length: "xs \<in> set (inits ys) \<Longrightarrow> length xs \<le> length ys"
  by (induction ys arbitrary: xs) auto

lemma path_not_on_parent_chain:
  assumes "IsAbs vp" and "good_elem (rev (takeWhile (\<lambda>c. c \<noteq> CHR ''/'') (rev vp)))"
  shows "Clean vp \<notin> set (path_chain (Dir vp))"
proof
  assume "Clean vp \<in> set (path_chain (Dir vp))"
  then obtain xs where xs: "xs \<in> set (inits (elems (Dir vp)))" "Clean vp = ''/'' @ join_slash xs"
    by (auto simp: path_chain_def)
  have "\<forall>x\<in>set xs. good_elem x" using inits_elem[OF xs(1)] elems_good[of "Dir vp"] by blast
  from elems_join[OF this] xs(2) have "elems (Clean vp) = xs" by simp
  then have "elems vp = xs" using elems_Clean[OF assms(1)] by simp
  with Dir_elems[OF assms] have "length xs = length (elems (Dir vp)) + 1" by simp
  with inits_length[OF xs(1)] show False by simp
qed

lemma last_elem_cleaned:
  assumes "cleaned_abs vp" and "vp \<noteq> ''/''"
  shows "good_elem (rev (takeWhile (\<lambda>c. c \<noteq> CHR ''/'') (rev vp)))"
proof -
  let ?P = "\<lambda>c. c \<noteq> CHR ''/''"
  let ?l = "rev (takeWhile ?P (rev vp))"
  from assms obtain t where vp: "vp = CHR ''/'' # t"
    and g: "\<forall>x\<in>set (split_slash t). good_elem x"
    by (cases vp) (auto simp: cleaned_abs_def IsAbs_def HasPrefix_def list_all_iff)
  let ?d = "dropWhile ?P (rev vp)"
  have dne: "?d \<noteq> []"
    using dropWhile_snoc_last[of ?P "CHR ''/''" "rev t"] vp by simp
  then have "\<not> ?P (hd ?d)" by (rule hd_dropWhile)
  with dne obtain d' where d: "?d = CHR ''/'' # d'" by (cases ?d) auto
  have "rev vp = takeWhile ?P (rev vp) @ ?d" by simp
  then have "rev (rev vp) = rev (takeWhile ?P (rev vp) @ ?d)" by (rule arg_cong)
  then have split: "vp = rev d' @ CHR ''/'' # ?l" using d by simp
  have nl: "CHR ''/'' \<notin> set ?l" using set_takeWhileD[of _ ?P "rev vp"] by auto
  have "split_slash vp = split_slash (rev d') @ [?l]"
    by (subst split, subst split_slash_snoc_part) (simp add: split_slash_plain[OF nl])
  moreover have "split_slash vp = [] # split_slash t" using vp by simp
  ultimately have "?l \<in> set (split_slash t)"
    by (cases "split_slash (rev d')") (auto simp: split_slash_nonempty)
  with g show ?thesis by blast
qed

section \<open>The in-memory store keeps the laws\<close>

lemma MemMapFs_simps:
  "afero_MkdirAll MemMapFs = mem_MkdirAll" "afero_WriteFile MemMapFs = mem_WriteFile"
  "afero_ReadFile MemMapFs = mem_ReadFile" "afero_Stat MemMapFs = mem_Stat"
  "afero_Remove MemMapFs = mem_Remove" "afero_RemoveAll MemMapFs = mem_RemoveAll"
  "afero_Walk MemMapFs = mem_Walk"
  by (simp_all add: MemMapFs_def)

lemma cleaned_abs_not_dot: "cleaned_abs a \<Longrightarrow> a \<noteq> ''.'' \<and> a \<noteq> ''..''"
  by (auto simp: cleaned_abs_def IsAbs_def HasPrefix_def)

lemma mem_normalizePath_abs: "IsAbs p \<Longrightarrow> mem_normalizePath p = Clean p"
  using cleaned_abs_not_dot[OF Clean_cleaned_abs[of p]] by (simp add: mem_normalizePath_def Let_def)

lemma mem_normalizePath_cleaned: "cleaned_abs a \<Longrightarrow> mem_normalizePath a = a"
  using cleaned_abs_not_dot[of a] cleaned_abs_Clean[of a] by (simp add: mem_normalizePath_def Let_def)

lemma mem_keeps_refl: "mem_keeps s s"
  by (simp add: mem_keeps_def)

lemma mem_keeps_trans: "mem_keeps s t \<Longrightarrow> mem_keeps t u \<Longrightarrow> mem_keeps s u"
  unfolding mem_keeps_def by (metis (no_types, lifting))

lemma mem_keeps_new: "map_of s k = None \<Longrightarrow> mem_keeps s (AList.update k fd s)"
  by (auto simp: mem_keeps_def update_conv')

lemma mem_keeps_add_child: "mem_keeps s (mem_add_child s pk k)"
  by (auto simp: mem_keeps_def mem_add_child_def update_conv' split: option.splits)

lemma mem_keeps_setFileMode: "mem_keeps s (mem_setFileMode s k m)"
  by (auto simp: mem_keeps_def mem_setFileMode_def update_conv' split: option.splits)

lemma mem_keeps_register: "mem_keeps s (registerWithParent perm s k ups)"
proof (induction ups arbitrary: s k)
  case Nil
  show ?case by (simp add: mem_keeps_add_child)
next
  case (Cons pk up)
  show ?case
  proof (cases "map_of s pk")
    case (Some pfd)
    then show ?thesis by (simp add: mem_keeps_add_child)
  next
    case None
    let ?s1 = "AList.update pk (mem_new_dir perm) s"
    have "mem_keeps s ?s1" using None by (rule mem_keeps_new)
    moreover have "mem_keeps ?s1 (registerWithParent perm ?s1 pk up)" by (rule Cons.IH)
    moreover have "mem_keeps (registerWithParent perm ?s1 pk up)
        (mem_add_child (registerWithParent perm ?s1 pk up) pk k)"
      by (rule mem_keeps_add_child)
    ultimately show ?thesis using None by (simp add: mem_keeps_trans[OF mem_keeps_trans])
  qed
qed

lemma mem_keepsD:
  "mem_keeps s s' \<Longrightarrow> map_of s x = Some fd \<Longrightarrow>
   \<exists>fd'. map_of s' x = Some fd' \<and> fd_data fd' = fd_data fd \<and> (fd_dir fd \<longrightarrow> fd_dir fd')"
  by (simp add: mem_keeps_def)

lemma mem_setData_at:
  "map_of s k = Some fd \<Longrightarrow> map_of (mem_setData s k b) x =
     (if x = k then Some (fd\<lparr>fd_data := b\<rparr>) else map_of s x)"
  by (simp add: mem_setData_def update_conv')

text \<open>What a write and a \<^verbatim>\<open>MkdirAll\<close> of the store do to an entry that exists.\<close>

lemma mem_WriteFile_at:
  assumes "mem_WriteFile p b m s = (e, s')"
  shows "e = None" and "\<exists>fd. map_of s' (mem_normalizePath p) = Some fd \<and> fd_data fd = b"
    and "map_of s x = Some fd \<Longrightarrow>
         \<exists>fd'. map_of s' x = Some fd' \<and> (x \<noteq> mem_normalizePath p \<longrightarrow> fd_data fd' = fd_data fd) \<and>
           (fd_dir fd \<longrightarrow> fd_dir fd')"
proof -
  let ?k = "mem_normalizePath p"
  let ?s1 = "AList.update ?k \<lparr>fd_data = [], fd_mode = 0, fd_dir = False, fd_memDir = []\<rparr> s"
  let ?s2 = "registerWithParent 0 ?s1 ?k (mem_parents ?k)"
  let ?s3 = "mem_setFileMode ?s2 ?k (m AND chmodBits)"
  show "e = None" using assms by (auto simp: mem_WriteFile_def Let_def split: option.splits)
  have new: "s' = mem_setData ?s3 ?k b" if "map_of s ?k = None"
    using assms that by (simp add: mem_WriteFile_def Let_def)
  have old: "s' = AList.update ?k (fd0\<lparr>fd_data := b\<rparr>) s" if "map_of s ?k = Some fd0" for fd0
    using assms that by (simp add: mem_WriteFile_def Let_def)
  have k13: "mem_keeps ?s1 ?s3"
    using mem_keeps_trans[OF mem_keeps_register mem_keeps_setFileMode] .
  have "map_of ?s1 ?k = Some \<lparr>fd_data = [], fd_mode = 0, fd_dir = False, fd_memDir = []\<rparr>"
    by (simp add: update_conv')
  from mem_keepsD[OF k13 this] obtain fd3 where fd3: "map_of ?s3 ?k = Some fd3" by blast
  show "\<exists>fd. map_of s' ?k = Some fd \<and> fd_data fd = b"
  proof (cases "map_of s ?k")
    case None
    with new fd3 show ?thesis by (simp add: mem_setData_at)
  next
    case (Some fd0)
    with old show ?thesis by (simp add: update_conv')
  qed
  show "\<exists>fd'. map_of s' x = Some fd' \<and> (x \<noteq> ?k \<longrightarrow> fd_data fd' = fd_data fd) \<and>
           (fd_dir fd \<longrightarrow> fd_dir fd')" if x: "map_of s x = Some fd"
  proof (cases "map_of s ?k")
    case None
    with x have ne: "x \<noteq> ?k" by auto
    have "mem_keeps s ?s1" using None by (rule mem_keeps_new)
    from mem_keepsD[OF mem_keeps_trans[OF this k13] x] obtain fd' where
      "map_of ?s3 x = Some fd'" "fd_data fd' = fd_data fd" "fd_dir fd \<longrightarrow> fd_dir fd'" by blast
    with new[OF None] fd3 ne show ?thesis by (simp add: mem_setData_at)
  next
    case (Some fd0)
    with old x show ?thesis by (auto simp: update_conv')
  qed
qed

lemma mem_MkdirAll_keeps:
  assumes "mem_MkdirAll d m s = (e, s')"
  shows "e = None" and "mem_keeps s s'"
proof -
  let ?k = "mem_normalizePath d"
  show "e = None" using assms by (auto simp: mem_MkdirAll_def Let_def split: option.splits)
  show "mem_keeps s s'"
  proof (cases "map_of s ?k")
    case None
    let ?s1 = "AList.update ?k (mem_new_dir (m AND chmodBits)) s"
    have "s' = mem_setFileMode (registerWithParent (m AND chmodBits) ?s1 ?k (mem_parents ?k)) ?k
        ((m AND chmodBits) OR ModeDir)"
      using assms None by (simp add: mem_MkdirAll_def Let_def)
    moreover have "mem_keeps s ?s1" using None by (rule mem_keeps_new)
    ultimately show ?thesis
      using mem_keeps_trans[OF mem_keeps_trans[OF _ mem_keeps_register] mem_keeps_setFileMode]
      by simp
  next
    case (Some fd0)
    with assms have "s' = s" by (simp add: mem_MkdirAll_def Let_def)
    then show ?thesis by (simp add: mem_keeps_refl)
  qed
qed

lemma mem_ReadFile_Inr:
  "(mem_ReadFile p s = Inr b) = (\<exists>fd. map_of s (mem_normalizePath p) = Some fd \<and> fd_data fd = b)"
  by (auto simp: mem_ReadFile_def split: option.splits)

lemma MemMapFs_store_content: "store_content MemMapFs"
proof -
  have a: "mem_ReadFile p s' = Inr b" if "mem_WriteFile p b m s = (None, s')" for p b m s s'
    using mem_WriteFile_at(2)[OF that] by (simp add: mem_ReadFile_Inr)
  have b: "mem_ReadFile p s' = Inr b"
    if "IsAbs p" "IsAbs q" "Clean p \<noteq> Clean q" "mem_WriteFile q c m s = (e, s')"
      "mem_ReadFile p s = Inr b" for p q b c m s e s'
  proof -
    from that(5) obtain fd where fd: "map_of s (mem_normalizePath p) = Some fd" "fd_data fd = b"
      by (auto simp: mem_ReadFile_Inr)
    have "mem_normalizePath p \<noteq> mem_normalizePath q"
      using that(1-3) by (simp add: mem_normalizePath_abs)
    with mem_WriteFile_at(3)[OF that(4) fd(1)] fd(2) show ?thesis
      by (auto simp: mem_ReadFile_Inr)
  qed
  have c: "mem_ReadFile p s' = Inr b"
    if "mem_MkdirAll d m s = (e, s')" "mem_ReadFile p s = Inr b" for p d m s e s' b
  proof -
    from that(2) obtain fd where fd: "map_of s (mem_normalizePath p) = Some fd" "fd_data fd = b"
      by (auto simp: mem_ReadFile_Inr)
    from mem_keepsD[OF mem_MkdirAll_keeps(2)[OF that(1)] fd(1)] fd(2) show ?thesis
      by (auto simp: mem_ReadFile_Inr)
  qed
  have d: "(mem_ReadFile (Clean p) s = Inr b) = (mem_ReadFile p s = Inr b)" if "IsAbs p" for p s b
  proof -
    have "mem_normalizePath (Clean p) = mem_normalizePath p"
      using that Clean_cleaned_abs[OF that]
      by (simp add: mem_normalizePath_abs mem_normalizePath_cleaned)
    then show ?thesis by (simp add: mem_ReadFile_Inr)
  qed
  show ?thesis
    unfolding store_content_def MemMapFs_simps
    using a b c d by blast
qed

lemma MemMapFs_store_total: "store_total MemMapFs"
  unfolding store_total_def MemMapFs_simps
  using mem_MkdirAll_keeps(1) mem_WriteFile_at(1) by (metis prod.collapse)



text \<open>The chain of a path: its elements are distinct, and the path comes after the chain of
  its parent.\<close>

lemma inits_distinct: "distinct (inits xs)"
proof (induction xs)
  case Nil
  show ?case by simp
next
  case (Cons x xs)
  have "distinct (map ((#) x) (inits xs))"
    using Cons by (simp add: distinct_map inj_on_def)
  then show ?case by auto
qed

lemma inits_snoc: "inits (xs @ [x]) = inits xs @ [xs @ [x]]"
  by (induction xs) simp_all

lemma path_chain_distinct: "distinct (path_chain p)"
proof -
  have "inj_on (\<lambda>segs. ''/'' @ join_slash segs) (set (inits (elems p)))"
  proof (rule inj_on_inverseI)
    fix xs assume "xs \<in> set (inits (elems p))"
    with inits_elem[OF this] elems_good[of p] have "\<forall>x\<in>set xs. good_elem x" by blast
    then show "elems (''/'' @ join_slash xs) = xs" by (rule elems_join)
  qed
  then show ?thesis by (simp add: path_chain_def distinct_map inits_distinct)
qed

lemma path_chain_root: "path_chain ''/'' = [''/'']"
  by (simp add: path_chain_def elems_root)

lemma path_chain_Clean: "IsAbs d \<Longrightarrow> path_chain (Clean d) = path_chain d"
  by (simp add: path_chain_def elems_Clean)

lemma path_chain_snoc:
  assumes "cleaned_abs k" and "k \<noteq> ''/''"
  shows "path_chain k = path_chain (Dir k) @ [k]"
proof -
  have abs: "IsAbs k" using assms(1) by (rule cleaned_abs_IsAbs)
  define l where "l = rev (takeWhile (\<lambda>c. c \<noteq> CHR ''/'') (rev k))"
  have e: "elems k = elems (Dir k) @ [l]"
    unfolding l_def using abs last_elem_cleaned[OF assms] by (rule Dir_elems)
  have k: "''/'' @ join_slash (elems k) = k"
    using Clean_rooted[OF abs] cleaned_abs_Clean[OF assms(1)] by simp
  have "inits (elems k) = inits (elems (Dir k) @ [l])" using e by simp
  also have "\<dots> = inits (elems (Dir k)) @ [elems (Dir k) @ [l]]" by (rule inits_snoc)
  finally have "inits (elems k) = inits (elems (Dir k)) @ [elems k]" using e by simp
  then have "path_chain k = path_chain (Dir k) @ [''/'' @ join_slash (elems k)]"
    by (simp add: path_chain_def)
  with k show ?thesis by simp
qed

text \<open>Directories in the store and in its map.\<close>

lemma mem_Stat_cleaned:
  assumes "cleaned_abs a"
  shows "mem_Stat a s = (case map_of s a of None \<Rightarrow> Inl (mem_not_exist ''open'' a)
                         | Some fd \<Rightarrow> Inr (mem_info a fd))"
  by (simp add: mem_Stat_def mem_normalizePath_cleaned[OF assms] split: option.splits)

lemma is_dir_at_mem: "cleaned_abs a \<Longrightarrow> is_dir_at MemMapFs s a = mem_is_dir s a"
  by (simp add: is_dir_at_def MemMapFs_simps mem_Stat_cleaned mem_is_dir_def mem_info_def
      split: option.splits)

lemma mem_keeps_dir: "mem_keeps s s' \<Longrightarrow> mem_is_dir s a \<Longrightarrow> mem_is_dir s' a"
  unfolding mem_is_dir_def by (auto split: option.splits dest: mem_keepsD)

lemma mem_add_child_dir: "map_of s pk \<noteq> None \<Longrightarrow> mem_is_dir (mem_add_child s pk k) pk"
  by (auto simp: mem_add_child_def mem_is_dir_def update_conv')

lemma missing_then_dirs_other:
  assumes "\<forall>a\<in>set ups. cleaned_abs a" and "k \<notin> set ups"
  shows "missing_then_dirs MemMapFs (AList.update k fd s) ups = missing_then_dirs MemMapFs s ups"
  using assms
proof (induction ups)
  case Nil
  show ?case by simp
next
  case (Cons a up)
  have st: "mem_Stat x (AList.update k fd s) = mem_Stat x s" if "x \<in> set (a # up)" for x
    using that Cons.prems by (auto simp: mem_Stat_cleaned update_conv')
  have "is_dir_at MemMapFs (AList.update k fd s) x = is_dir_at MemMapFs s x" if "x \<in> set up" for x
    using st[of x] that by (simp add: is_dir_at_def MemMapFs_simps)
  then have "list_all (is_dir_at MemMapFs (AList.update k fd s)) up = list_all (is_dir_at MemMapFs s) up"
    by (simp add: list_all_iff)
  moreover have "missing_then_dirs MemMapFs (AList.update k fd s) up = missing_then_dirs MemMapFs s up"
    using Cons by simp
  ultimately show ?case using st[of a] by (simp add: MemMapFs_simps split: sum.splits)
qed

text \<open>
  Registering an entry that is a directory, on a chain that is in order: afterwards the
  entry and every parent are directories.
\<close>

lemma registerWithParent_chain:
  assumes "mem_is_dir s k" and "\<forall>a\<in>set ups. cleaned_abs a" and "distinct (k # ups)"
    and "missing_then_dirs MemMapFs s ups"
  shows "\<forall>a\<in>set (k # ups). mem_is_dir (registerWithParent perm s k ups) a"
  using assms
proof (induction ups arbitrary: s k)
  case Nil
  have "mem_keeps s (mem_add_child s k k)" by (rule mem_keeps_add_child)
  from mem_keeps_dir[OF this Nil.prems(1)] show ?case by simp
next
  case (Cons pk up)
  have pkc: "cleaned_abs pk" using Cons.prems(2) by simp
  have ne: "k \<noteq> pk" using Cons.prems(3) by auto
  show ?case
  proof (cases "map_of s pk")
    case (Some pfd)
    have r: "registerWithParent perm s k (pk # up) = mem_add_child s pk k" using Some by simp
    have k1: "mem_keeps s (mem_add_child s pk k)" by (rule mem_keeps_add_child)
    from Cons.prems(4) Some have "fd_dir pfd" and "\<forall>a\<in>set up. is_dir_at MemMapFs s a"
      by (simp_all add: MemMapFs_simps mem_Stat_cleaned[OF pkc] mem_info_def list_all_iff)
    then have "mem_is_dir s pk" and "\<forall>a\<in>set up. mem_is_dir s a"
      using Some Cons.prems(2) by (simp_all add: mem_is_dir_def is_dir_at_mem)
    with Cons.prems(1) have "\<forall>a\<in>set (k # pk # up). mem_is_dir s a" by simp
    with mem_keeps_dir[OF k1] show ?thesis unfolding r by blast
  next
    case None
    let ?s1 = "AList.update pk (mem_new_dir perm) s"
    let ?s2 = "registerWithParent perm ?s1 pk up"
    have r: "registerWithParent perm s k (pk # up) = mem_add_child ?s2 pk k" using None by simp
    have d1: "mem_is_dir ?s1 pk" by (simp add: mem_is_dir_def update_conv' mem_new_dir_def)
    have m0: "missing_then_dirs MemMapFs s up"
      using Cons.prems(4) None by (simp add: MemMapFs_simps mem_Stat_cleaned[OF pkc])
    have m1: "missing_then_dirs MemMapFs ?s1 up"
      using missing_then_dirs_other[of up pk] Cons.prems(2,3) m0 by simp
    have "\<forall>a\<in>set (pk # up). mem_is_dir ?s2 a"
      using Cons.IH[OF d1 _ _ m1] Cons.prems(2,3) by simp
    moreover have "mem_is_dir ?s2 k"
      using mem_keeps_dir[OF mem_keeps_trans[OF mem_keeps_new[OF None] mem_keeps_register] Cons.prems(1)] .
    ultimately have "\<forall>a\<in>set (k # pk # up). mem_is_dir ?s2 a" by simp
    with mem_keeps_dir[OF mem_keeps_add_child] show ?thesis unfolding r by blast
  qed
qed

lemma mem_MkdirAll_chain:
  assumes "IsAbs d" and "mem_MkdirAll d m s = (None, s')"
    and "missing_then_dirs MemMapFs s (rev (path_chain d))" and "a \<in> set (path_chain d)"
  shows "is_dir_at MemMapFs s' a"
proof -
  let ?k = "Clean d"
  let ?m = "m AND chmodBits"
  let ?s1 = "AList.update ?k (mem_new_dir ?m) s"
  have kc: "cleaned_abs ?k" using assms(1) by (rule Clean_cleaned_abs)
  have nk: "mem_normalizePath d = ?k" using assms(1) by (rule mem_normalizePath_abs)
  have ch: "path_chain d = path_chain ?k" using assms(1) by (simp add: path_chain_Clean)
  have ac: "cleaned_abs a" using assms(4) by (rule path_chain_cleaned)
  have allc: "\<forall>x\<in>set (path_chain ?k). cleaned_abs x" using path_chain_cleaned by blast
  have d1: "mem_is_dir ?s1 ?k" by (simp add: mem_is_dir_def update_conv' mem_new_dir_def)
  have new: "s' = mem_setFileMode (registerWithParent ?m ?s1 ?k (mem_parents ?k)) ?k (?m OR ModeDir)"
    if "map_of s ?k = None"
    using assms(2) that by (simp add: mem_MkdirAll_def Let_def nk)
  have old: "s' = s" if "map_of s ?k = Some fd" for fd
    using assms(2) that by (simp add: mem_MkdirAll_def Let_def nk)
  have "mem_is_dir s' a"
  proof (cases "?k = ''/''")
    case True
    then have a: "a = ''/''" using assms(4) ch by (simp add: path_chain_root)
    show ?thesis
    proof (cases "map_of s ''/''")
      case None
      have ps: "mem_parents ''/'' = [''/'']" by code_simp
      have "registerWithParent ?m ?s1 ?k (mem_parents ?k) = mem_add_child ?s1 ''/'' ''/''"
        using True by (simp add: ps update_conv')
      moreover have "mem_is_dir (mem_add_child ?s1 ''/'' ''/'') ''/''"
        using True by (simp add: mem_add_child_dir update_conv')
      ultimately show ?thesis
        using new None True a mem_keeps_dir[OF mem_keeps_setFileMode] by simp
    next
      case (Some fd)
      have rc: "cleaned_abs ''/''" using kc True by simp
      from assms(3) Some True ch have "fd_dir fd"
        by (simp add: path_chain_root MemMapFs_simps mem_Stat_cleaned[OF rc] mem_info_def)
      with old[of fd] Some True a show ?thesis by (simp add: mem_is_dir_def)
    qed
  next
    case False
    have sn: "path_chain ?k = path_chain (Dir ?k) @ [?k]" using kc False by (rule path_chain_snoc)
    then have rv: "rev (path_chain d) = ?k # mem_parents ?k" by (simp add: ch mem_parents_def)
    have upc: "\<forall>x\<in>set (mem_parents ?k). cleaned_abs x"
      using path_chain_cleaned by (auto simp: mem_parents_def)
    have dist: "distinct (?k # mem_parents ?k)"
      using path_chain_distinct[of d] unfolding rv[symmetric] by simp
    have ain: "a \<in> set (?k # mem_parents ?k)" using assms(4) rv by (metis set_rev)
    show ?thesis
    proof (cases "map_of s ?k")
      case None
      have m0: "missing_then_dirs MemMapFs s (mem_parents ?k)"
        using assms(3) None unfolding rv by (simp add: MemMapFs_simps mem_Stat_cleaned[OF kc])
      have m1: "missing_then_dirs MemMapFs ?s1 (mem_parents ?k)"
        using missing_then_dirs_other[OF upc, of ?k] dist m0 by simp
      from registerWithParent_chain[OF d1 upc dist m1] ain
      have "mem_is_dir (registerWithParent ?m ?s1 ?k (mem_parents ?k)) a" by blast
      with new[OF None] mem_keeps_dir[OF mem_keeps_setFileMode] show ?thesis by simp
    next
      case (Some fd)
      from assms(3) Some have "fd_dir fd" and "\<forall>x\<in>set (mem_parents ?k). is_dir_at MemMapFs s x"
        unfolding rv
        by (simp_all add: MemMapFs_simps mem_Stat_cleaned[OF kc] mem_info_def list_all_iff)
      then have "\<forall>x\<in>set (?k # mem_parents ?k). mem_is_dir s x"
        using Some upc by (simp add: mem_is_dir_def is_dir_at_mem)
      with ain old[OF Some] show ?thesis by blast
    qed
  qed
  then show ?thesis using ac by (simp add: is_dir_at_mem)
qed

lemma mem_WriteFile_dir:
  assumes "IsAbs a" and "mem_WriteFile p b m s = (e, s')" and "is_dir_at MemMapFs s a"
  shows "is_dir_at MemMapFs s' a"
proof -
  let ?ka = "mem_normalizePath a"
  from assms(3) obtain fd where fd: "map_of s ?ka = Some fd" "fd_dir fd"
    by (auto simp: is_dir_at_def MemMapFs_simps mem_Stat_def mem_info_def split: option.splits)
  from mem_WriteFile_at(3)[OF assms(2) fd(1)] fd(2) obtain fd' where
    "map_of s' ?ka = Some fd'" "fd_dir fd'" by blast
  then show ?thesis by (simp add: is_dir_at_def MemMapFs_simps mem_Stat_def mem_info_def)
qed

lemma MemMapFs_store_tree: "store_tree MemMapFs"
  unfolding store_tree_def
  using mem_MkdirAll_chain mem_WriteFile_dir by (simp add: MemMapFs_simps)

text \<open>The stores of the instances for the evaluations.\<close>

lemma ref_memory_fields:
  "afero ref_memory = MemMapFs" "fs ref_memory = mem_empty"
  "bundledManager ref_memory = NewBundledManager"
  by (simp_all add: ref_memory_def NewMemoryVFS_def New_def ref_platform_def)


section \<open>Writing creates the parent directories\<close>

text \<open>
  Claim C9.  On a path that is not bundled, \<^verbatim>\<open>WriteFile\<close> asks the store for
  \<^verbatim>\<open>MkdirAll\<close> of the parent directory \<^verbatim>\<open>filepath.Dir\<close> of the normalised path, with mode
  \<^verbatim>\<open>0755\<close> (493), and writes only when that succeeds: the caller need not create the
  directories first.  On a store that refuses no write the call succeeds.  The parent is
  cleaned, so the directories that are created are those of the cleaned path: when the
  chain from the parent up to the root is in order before the call (missing entries, then
  directories only; so in particular when no parent directory exists yet), then after a
  successful call \<^verbatim>\<open>IsDir\<close> holds of every directory from the root down to the parent.
  The store is asked to keep two laws: \<^verbatim>\<open>MkdirAll\<close> on a chain in order leaves
  directories along it, and a write never turns a directory into something else.
\<close>

theorem WriteFile_creates_parent_directories:
  assumes "\<not> IsBundledPath (bundledManager v) p"
    and "wf_registry (bundledManager v)"
    and "store_tree (afero v)"
  shows "WriteFile v p data perm =
           (case afero_MkdirAll (afero v) (Dir (normalizePath v p)) 493 (fs v) of
              (Some err, s1) \<Rightarrow> (Some err, v\<lparr>fs := s1\<rparr>)
            | (None, s1) \<Rightarrow>
                (case afero_WriteFile (afero v) (normalizePath v p) data perm s1 of
                   (err, s2) \<Rightarrow> (err, v\<lparr>fs := s2\<rparr>))) \<and>
         (store_total (afero v) \<longrightarrow> fst (WriteFile v p data perm) = None) \<and>
         (\<forall>v'. WriteFile v p data perm = (None, v') \<longrightarrow>
            missing_then_dirs (afero v) (fs v) (rev (path_chain (Dir (normalizePath v p)))) \<longrightarrow>
            (\<forall>a\<in>set (path_chain (Dir (normalizePath v p))). IsDir ks v' a))"
proof -
  let ?vp = "normalizePath v p"
  let ?d = "Dir ?vp"
  have abs: "IsAbs ?vp" using assms(1) by (rule normalizePath_abs)
  have dabs: "IsAbs ?d" using Dir_cleaned_abs[OF abs] by (rule cleaned_abs_IsAbs)
  obtain e1 s1 where m1: "afero_MkdirAll (afero v) ?d 493 (fs v) = (e1, s1)"
    by (cases "afero_MkdirAll (afero v) ?d 493 (fs v)")
  obtain e2 s2 where w2: "afero_WriteFile (afero v) ?vp data perm s1 = (e2, s2)"
    by (cases "afero_WriteFile (afero v) ?vp data perm s1")
  have first: "WriteFile v p data perm =
           (case afero_MkdirAll (afero v) ?d 493 (fs v) of
              (Some err, s1) \<Rightarrow> (Some err, v\<lparr>fs := s1\<rparr>)
            | (None, s1) \<Rightarrow>
                (case afero_WriteFile (afero v) ?vp data perm s1 of
                   (err, s2) \<Rightarrow> (err, v\<lparr>fs := s2\<rparr>)))"
    using WriteFile_not_bundled[OF assms(1), of data perm] by (simp add: perm_0755_def)
  have total: "fst (WriteFile v p data perm) = None" if "store_total (afero v)"
  proof -
    from that m1 w2 have "e1 = None" "e2 = None"
      unfolding store_total_def by (metis fst_conv)+
    with m1 w2 show ?thesis by (simp add: first)
  qed
  have dirs: "IsDir ks v' a"
    if w: "WriteFile v p data perm = (None, v')"
      and ord: "missing_then_dirs (afero v) (fs v) (rev (path_chain ?d))"
      and a: "a \<in> set (path_chain ?d)" for v' a
  proof -
    from w first m1 w2 have e: "e1 = None" "e2 = None" and v': "v' = v\<lparr>fs := s2\<rparr>"
      by (cases e1; simp)+
    have ac: "cleaned_abs a" using a by (rule path_chain_cleaned)
    have "is_dir_at (afero v) s1 a"
      using store_tree_mkdir[OF assms(3) dabs _ ord a] m1 e(1) by simp
    then have "is_dir_at (afero v) s2 a"
      using store_tree_write[OF assms(3) abs cleaned_abs_IsAbs[OF ac] w2] by simp
    moreover have "\<not> IsBundledPath (bundledManager v') a"
      using cleaned_abs_not_bundled[OF assms(2) ac] v' by simp
    moreover have "normalizePath v' a = a"
      using normalizePath_cleaned[OF _ ac, of v'] assms(2) v' by simp
    ultimately show ?thesis using v' by (simp add: IsDir_not_bundled)
  qed
  from first total dirs show ?thesis by blast
qed

text \<open>
  Writing \<^verbatim>\<open>/a/b/c.txt\<close> into the empty memory instance: no directory \<^verbatim>\<open>/a\<close> or
  \<^verbatim>\<open>/a/b\<close> before, the write succeeds, the three directories exist after, and the new
  ones have the mode \<^verbatim>\<open>0755\<close> with the directory bit.
\<close>

theorem WriteFile_creates_parent_directories_witness:
  "\<not> IsDir [] ref_memory ''/a'' \<and> \<not> IsDir [] ref_memory ''/a/b'' \<and>
   fst (WriteFile ref_memory ''/a/b/c.txt'' [1] 420) = None \<and>
   IsDir [] (snd (WriteFile ref_memory ''/a/b/c.txt'' [1] 420)) ''/'' \<and>
   IsDir [] (snd (WriteFile ref_memory ''/a/b/c.txt'' [1] 420)) ''/a'' \<and>
   IsDir [] (snd (WriteFile ref_memory ''/a/b/c.txt'' [1] 420)) ''/a/b'' \<and>
   Stat [] (snd (WriteFile ref_memory ''/a/b/c.txt'' [1] 420)) ''/a'' =
     Inr \<lparr>info_Name = ''a'', info_Size = 42, info_Mode = 2147483648 + 493, info_IsDir = True\<rparr> \<and>
   Stat [] (snd (WriteFile ref_memory ''/a/b/c.txt'' [1] 420)) ''/a/b'' =
     Inr \<lparr>info_Name = ''b'', info_Size = 42, info_Mode = 2147483648 + 493, info_IsDir = True\<rparr>"
proof -
  have nb: "\<not> IsBundledPath (bundledManager ref_memory) ''/a/b/c.txt''"
    by (simp add: IsBundledPath_def ref_memory_bundled)
  have wf: "wf_registry (bundledManager ref_memory)"
    by (simp add: wf_registry_def ref_memory_bundled)
  have st: "store_tree (afero ref_memory)" and tot: "store_total (afero ref_memory)"
    by (simp_all add: ref_memory_fields MemMapFs_store_tree MemMapFs_store_total)
  note t = WriteFile_creates_parent_directories[OF nb wf st, of "[1]" 420 "[]"]
  have np: "normalizePath ref_memory ''/a/b/c.txt'' = ''/a/b/c.txt''"
    using nb by (simp add: normalizePath_def IsAbs_def HasPrefix_def)
  have chain: "path_chain (Dir ''/a/b/c.txt'') = [''/'', ''/a'', ''/a/b'']"
    by code_simp
  have ord: "missing_then_dirs (afero ref_memory) (fs ref_memory)
      (rev (path_chain (Dir (normalizePath ref_memory ''/a/b/c.txt''))))"
    unfolding np by code_simp
  from t tot have ok: "fst (WriteFile ref_memory ''/a/b/c.txt'' [1] 420) = None" by blast
  then have w: "WriteFile ref_memory ''/a/b/c.txt'' [1] 420 =
      (None, snd (WriteFile ref_memory ''/a/b/c.txt'' [1] 420))"
    by (metis prod.collapse)
  from t w ord have "\<forall>a\<in>set (path_chain (Dir (normalizePath ref_memory ''/a/b/c.txt''))).
      IsDir [] (snd (WriteFile ref_memory ''/a/b/c.txt'' [1] 420)) a" by blast
  then have d: "IsDir [] (snd (WriteFile ref_memory ''/a/b/c.txt'' [1] 420)) ''/'' \<and>
      IsDir [] (snd (WriteFile ref_memory ''/a/b/c.txt'' [1] 420)) ''/a'' \<and>
      IsDir [] (snd (WriteFile ref_memory ''/a/b/c.txt'' [1] 420)) ''/a/b''"
    unfolding np chain by simp
  have before: "\<not> IsDir [] ref_memory ''/a'' \<and> \<not> IsDir [] ref_memory ''/a/b''"
    by code_simp
  have mode: "Stat [] (snd (WriteFile ref_memory ''/a/b/c.txt'' [1] 420)) ''/a'' =
     Inr \<lparr>info_Name = ''a'', info_Size = 42, info_Mode = 2147483648 + 493, info_IsDir = True\<rparr> \<and>
   Stat [] (snd (WriteFile ref_memory ''/a/b/c.txt'' [1] 420)) ''/a/b'' =
     Inr \<lparr>info_Name = ''b'', info_Size = 42, info_Mode = 2147483648 + 493, info_IsDir = True\<rparr>"
    by code_simp
  from before ok d mode show ?thesis by blast
qed

text \<open>
  Claim C9 as stated fails for a path with an element that cleaning removes.  Writing
  \<^verbatim>\<open>/x/../y.txt\<close> into the empty memory instance succeeds and the file reads back, but the
  parent that is created is the root: \<^verbatim>\<open>/x\<close>, a directory on the way to the file as the
  path is written, does not exist afterwards.
\<close>

theorem WriteFile_skips_cleaned_away_directory:
  "fst (WriteFile ref_memory ''/x/../y.txt'' [1] 420) = None \<and>
   ReadFile [] (snd (WriteFile ref_memory ''/x/../y.txt'' [1] 420)) ''/x/../y.txt'' = Inr [1] \<and>
   IsDir [] (snd (WriteFile ref_memory ''/x/../y.txt'' [1] 420)) ''/x'' = False \<and>
   Exists [] (snd (WriteFile ref_memory ''/x/../y.txt'' [1] 420)) ''/x'' = False"
  by code_simp

section \<open>Move\<close>












section \<open>Round trip\<close>

lemma store_total_mkdir: "store_total M \<Longrightarrow> \<exists>s1. afero_MkdirAll M d m s = (None, s1)"
  unfolding store_total_def by (metis prod.collapse)

lemma store_total_write: "store_total M \<Longrightarrow> \<exists>s2. afero_WriteFile M p b m s = (None, s2)"
  unfolding store_total_def by (metis prod.collapse)

text \<open>
  One step of the copy.  The clone writes to a store \<open>M\<close> and has the registry of the
  original.  A call that can be copied returns no error; the bytes \<open>b\<close> that the original
  holds at \<open>q0\<close> stay in the clone once they are there, and they are there after the call
  that visits \<open>q0\<close> as a file.
\<close>

lemma Clone_step:
  assumes wf: "wf_registry (bundledManager v)"
    and cA: "store_content (afero v)" and cM: "store_content M" and tot: "store_total M"
    and c: "afero c = M" "bundledManager c = bundledManager v"
    and x: "copyable v x" and q0: "cleaned_abs q0"
    and src: "afero_ReadFile (afero v) q0 (fs v) = Inr b"
  shows "\<exists>c'. Clone_walkFn ks v c x = (None, c') \<and> afero c' = M \<and>
           bundledManager c' = bundledManager v \<and>
           (afero_ReadFile M q0 (fs c) = Inr b \<longrightarrow> afero_ReadFile M q0 (fs c') = Inr b) \<and>
           (visits_file q0 x \<longrightarrow> afero_ReadFile M q0 (fs c') = Inr b)"
proof (cases x)
  case (VisitError path info err)
  with x show ?thesis by (simp add: copyable_def)
next
  case (Visit q info)
  have q0abs: "IsAbs q0" using q0 by (rule cleaned_abs_IsAbs)
  have q0nb: "\<not> IsBundledPath (bundledManager v) q0" using wf q0 by (rule cleaned_abs_not_bundled)
  show ?thesis
  proof (cases "info_IsDir info \<or> IsBundledPath (bundledManager v) q")
    case True
    then have "Clone_walkFn ks v c x = (None, c)" using Visit by (auto simp: Clone_walkFn_def)
    moreover have "\<not> visits_file q0 x" using True Visit q0nb by (auto simp: visits_file_def)
    ultimately show ?thesis using c by simp
  next
    case False
    then have nd: "\<not> info_IsDir info" and nb: "\<not> IsBundledPath (bundledManager v) q" by simp_all
    let ?vq = "normalizePath v q"
    have vqabs: "IsAbs ?vq" using nb by (rule normalizePath_abs)
    from x Visit nd nb obtain d where d: "afero_ReadFile (afero v) ?vq (fs v) = Inr d"
      by (auto simp: copyable_def split: sum.splits)
    have rf: "ReadFile ks v q = Inr d" using nb d by (simp add: ReadFile_not_bundled)
    have nbc: "\<not> IsBundledPath (bundledManager c) q" using nb c(2) by simp
    have npc: "normalizePath c q = ?vq" using c(2) by (rule normalizePath_registry)
    from store_total_mkdir[OF tot] obtain s1 where
      m1: "afero_MkdirAll M (Dir ?vq) perm_0755 (fs c) = (None, s1)" by blast
    from store_total_write[OF tot] obtain s2 where
      w2: "afero_WriteFile M ?vq d (info_Mode info) s1 = (None, s2)" by blast
    have w: "WriteFile c q d (info_Mode info) = (None, c\<lparr>fs := s2\<rparr>)"
      using m1 w2 c(1) by (simp add: WriteFile_not_bundled[OF nbc] npc)
    have step: "Clone_walkFn ks v c x = (None, c\<lparr>fs := s2\<rparr>)"
      using Visit nd nb rf w by (simp add: Clone_walkFn_def)
    have same: "afero_ReadFile M q0 s2 = Inr b" if eq: "Clean q0 = Clean ?vq"
    proof -
      have "afero_ReadFile (afero v) (Clean ?vq) (fs v) = Inr d"
        using store_content_clean[OF cA vqabs] d by simp
      with src eq cleaned_abs_Clean[OF q0] have db: "d = b" by simp
      have "afero_ReadFile M ?vq s2 = Inr b"
        using store_content_read[OF cM vqabs w2] db by simp
      then have "afero_ReadFile M (Clean ?vq) s2 = Inr b"
        using store_content_clean[OF cM vqabs] by simp
      with eq cleaned_abs_Clean[OF q0] show ?thesis by simp
    qed
    have keep: "afero_ReadFile M q0 s2 = Inr b" if old: "afero_ReadFile M q0 (fs c) = Inr b"
    proof (cases "Clean q0 = Clean ?vq")
      case True
      then show ?thesis by (rule same)
    next
      case ne: False
      have "afero_ReadFile M q0 s1 = Inr b" using cM q0abs m1 old by (rule store_content_mkdir)
      with store_content_frame[OF cM q0abs vqabs ne w2] show ?thesis by simp
    qed
    have hit: "afero_ReadFile M q0 s2 = Inr b" if "visits_file q0 x"
    proof -
      from that Visit have "q = q0" by (simp add: visits_file_def)
      then have "?vq = q0" using normalizePath_cleaned[OF wf q0] by simp
      then show ?thesis using same by simp
    qed
    show ?thesis using step c keep hit by simp
  qed
qed

lemma Clone_run_keep:
  assumes wf: "wf_registry (bundledManager v)"
    and cA: "store_content (afero v)" and cM: "store_content M" and tot: "store_total M"
    and q0: "cleaned_abs q0" and src: "afero_ReadFile (afero v) q0 (fs v) = Inr b"
  shows "list_all (copyable v) xs \<Longrightarrow> afero c = M \<Longrightarrow> bundledManager c = bundledManager v \<Longrightarrow>
         afero_ReadFile M q0 (fs c) = Inr b \<Longrightarrow>
         \<exists>c'. walk_run (Clone_walkFn ks v) c xs = (None, c') \<and> afero c' = M \<and>
           bundledManager c' = bundledManager v \<and> afero_ReadFile M q0 (fs c') = Inr b"
proof (induction xs arbitrary: c)
  case Nil
  then show ?case by simp
next
  case (Cons x xs)
  have cx: "copyable v x" and rest: "list_all (copyable v) xs" using Cons.prems(1) by simp_all
  from Clone_step[OF wf cA cM tot Cons.prems(2,3) cx q0 src, of ks] Cons.prems(4)
  obtain c1 where s: "Clone_walkFn ks v c x = (None, c1)" and c1: "afero c1 = M"
    "bundledManager c1 = bundledManager v" "afero_ReadFile M q0 (fs c1) = Inr b"
    by blast
  from Cons.IH[OF rest c1] obtain c' where
    "walk_run (Clone_walkFn ks v) c1 xs = (None, c')" "afero c' = M"
    "bundledManager c' = bundledManager v" "afero_ReadFile M q0 (fs c') = Inr b"
    by blast
  with s show ?case by simp
qed

lemma Clone_run_hit:
  assumes wf: "wf_registry (bundledManager v)"
    and cA: "store_content (afero v)" and cM: "store_content M" and tot: "store_total M"
    and q0: "cleaned_abs q0" and src: "afero_ReadFile (afero v) q0 (fs v) = Inr b"
  shows "list_all (copyable v) xs \<Longrightarrow> list_ex (visits_file q0) xs \<Longrightarrow>
         afero c = M \<Longrightarrow> bundledManager c = bundledManager v \<Longrightarrow>
         \<exists>c'. walk_run (Clone_walkFn ks v) c xs = (None, c') \<and> afero c' = M \<and>
           bundledManager c' = bundledManager v \<and> afero_ReadFile M q0 (fs c') = Inr b"
proof (induction xs arbitrary: c)
  case Nil
  then show ?case by simp
next
  case (Cons x xs)
  have cx: "copyable v x" and rest: "list_all (copyable v) xs" using Cons.prems(1) by simp_all
  from Clone_step[OF wf cA cM tot Cons.prems(3,4) cx q0 src, of ks]
  obtain c1 where s: "Clone_walkFn ks v c x = (None, c1)" and c1: "afero c1 = M"
    "bundledManager c1 = bundledManager v"
    and hit: "visits_file q0 x \<longrightarrow> afero_ReadFile M q0 (fs c1) = Inr b"
    by blast
  show ?case
  proof (cases "visits_file q0 x")
    case True
    with hit have "afero_ReadFile M q0 (fs c1) = Inr b" by simp
    from Clone_run_keep[OF wf cA cM tot q0 src rest c1 this, of ks] s show ?thesis by simp
  next
    case False
    with Cons.prems(2) have "list_ex (visits_file q0) xs" by simp
    from Cons.IH[OF rest this c1] s show ?thesis by simp
  qed
qed

lemma cleaned_abs_root: "cleaned_abs ''/''"
  by (simp add: cleaned_abs_def IsAbs_def HasPrefix_def)

lemma walk_visits_root:
  assumes "wf_registry (bundledManager v)"
  shows "walk_visits ks v ''/'' = afero_Walk (afero v) ''/'' (fs v)"
  using cleaned_abs_not_bundled[OF assms cleaned_abs_root]
    normalizePath_cleaned[OF assms cleaned_abs_root]
  by (simp add: walk_visits_def GetBundledFS_not_bundled)

text \<open>The clone holds the file that the walk of the original copies.\<close>

lemma Clone_holds_file:
  assumes wf: "wf_registry (bundledManager v)"
    and cA: "store_content (afero v)"
    and cM: "store_content (fst (NewMemMapFs P))" and tot: "store_total (fst (NewMemMapFs P))"
    and nb: "\<not> IsBundledPath (bundledManager v) p"
    and rd: "ReadFile ks1 v p = Inr b"
    and wk: "walk_copies v (Clean (normalizePath v p))"
  shows "ReadFile ks3 (Clone P ks4 v) p = Inr b"
proof -
  let ?A = "afero v"
  let ?M = "fst (NewMemMapFs P)"
  let ?vp = "normalizePath v p"
  let ?q0 = "Clean ?vp"
  have abs: "IsAbs ?vp" using nb by (rule normalizePath_abs)
  have q0: "cleaned_abs ?q0" using abs by (rule Clean_cleaned_abs)
  have src: "afero_ReadFile ?A ?q0 (fs v) = Inr b"
    using rd nb store_content_clean[OF cA abs, of "fs v" b] by (simp add: ReadFile_not_bundled)
  from wk have all: "list_all (copyable v) (afero_Walk ?A ''/'' (fs v))"
    and ex: "list_ex (visits_file ?q0) (afero_Walk ?A ''/'' (fs v))"
    by (simp_all add: walk_copies_def)
  have init: "afero (Clone_init P v) = ?M" "bundledManager (Clone_init P v) = bundledManager v"
    by (simp_all add: Clone_init_def)
  from Clone_run_hit[OF wf cA cM tot q0 src all ex init, of ks4]
  obtain c' where run: "walk_run (Clone_walkFn ks4 v) (Clone_init P v) (afero_Walk ?A ''/'' (fs v)) = (None, c')"
    and c': "afero c' = ?M" "bundledManager c' = bundledManager v"
      "afero_ReadFile ?M ?q0 (fs c') = Inr b"
    by blast
  have cl: "Clone P ks4 v = c'"
    using run by (simp add: Clone_def Clone_copy_def Walk_def walk_visits_root[OF wf])
  have "afero_ReadFile ?M ?vp (fs c') = Inr b"
    using c'(3) store_content_clean[OF cM abs, of "fs c'" b] by simp
  then show ?thesis
    using nb c' cl by (simp add: ReadFile_not_bundled normalizePath_def)
qed

text \<open>
  Claim C2, as the code has it.  On a path that is not bundled, a \<^verbatim>\<open>WriteFile\<close> that
  succeeds (on a store that refuses no write it always does) is followed by a \<^verbatim>\<open>ReadFile\<close>
  that returns the bytes written.  The clone made after the write returns the same bytes
  for the path when the walk of the original from the root copies the file: it reports no
  error, every file it visits can be read, and it visits the cleaned path as a file that is
  not a directory.  \<^verbatim>\<open>Clone\<close> copies what the walk visits and nothing else.  The stores
  are asked to keep content, and the store of the clone to refuse no write.
\<close>

theorem write_then_read_round_trip:
  assumes "\<not> IsBundledPath (bundledManager v) p"
    and "wf_registry (bundledManager v)"
    and "store_content (afero v)"
    and "store_content (fst (NewMemMapFs P))" and "store_total (fst (NewMemMapFs P))"
  shows "(store_total (afero v) \<longrightarrow> fst (WriteFile v p b perm) = None) \<and>
         (\<forall>v'. WriteFile v p b perm = (None, v') \<longrightarrow>
            ReadFile ks1 v' p = Inr b \<and>
            (walk_copies v' (Clean (normalizePath v p)) \<longrightarrow>
               ReadFile ks3 (Clone P ks4 v') p = Inr b))"
proof -
  let ?vp = "normalizePath v p"
  have abs: "IsAbs ?vp" using assms(1) by (rule normalizePath_abs)
  have total: "fst (WriteFile v p b perm) = None" if t: "store_total (afero v)"
  proof -
    from store_total_mkdir[OF t] obtain s1 where
      m1: "afero_MkdirAll (afero v) (Dir ?vp) perm_0755 (fs v) = (None, s1)" by blast
    from store_total_write[OF t] obtain s2 where
      w2: "afero_WriteFile (afero v) ?vp b perm s1 = (None, s2)" by blast
    from m1 w2 show ?thesis by (simp add: WriteFile_not_bundled[OF assms(1)])
  qed
  have rt: "ReadFile ks1 v' p = Inr b \<and>
      (walk_copies v' (Clean ?vp) \<longrightarrow> ReadFile ks3 (Clone P ks4 v') p = Inr b)"
    if w: "WriteFile v p b perm = (None, v')" for v'
  proof -
    from WriteFile_NoneD[OF w] obtain s1 s2 where
      w2: "afero_WriteFile (afero v) ?vp b perm s1 = (None, s2)" and v': "v' = v\<lparr>fs := s2\<rparr>"
      by blast
    have f: "afero v' = afero v" "bundledManager v' = bundledManager v" "fs v' = s2"
      using v' by simp_all
    have np: "normalizePath v' p = ?vp" using f(2) by (rule normalizePath_registry)
    have nb': "\<not> IsBundledPath (bundledManager v') p" using assms(1) f(2) by simp
    have r: "ReadFile ks1 v' p = Inr b" for ks1
      using store_content_read[OF assms(3) abs w2] nb' np f by (simp add: ReadFile_not_bundled)
    have "ReadFile ks3 (Clone P ks4 v') p = Inr b" if wk: "walk_copies v' (Clean ?vp)"
      using Clone_holds_file[of v' P p ks1 b ks3 ks4] assms(2-5) f nb' r wk np by simp
    with r show ?thesis by blast
  qed
  from total rt show ?thesis by blast
qed

text \<open>
  Writing two bytes to the relative path \<^verbatim>\<open>docs/../notes/a.txt\<close> of the empty memory
  instance, reading them back, and reading them from the clone.
\<close>

lemma ref_memory_round_trip:
  "walk_copies (snd (WriteFile ref_memory ''docs/../notes/a.txt'' [104, 105] 420))
     (Clean (normalizePath ref_memory ''docs/../notes/a.txt'')) \<and>
   Clean (normalizePath ref_memory ''docs/../notes/a.txt'') = ''/notes/a.txt''"
  by code_simp

theorem write_then_read_round_trip_witness:
  "fst (WriteFile ref_memory ''docs/../notes/a.txt'' [104, 105] 420) = None \<and>
   walk_copies (snd (WriteFile ref_memory ''docs/../notes/a.txt'' [104, 105] 420)) ''/notes/a.txt'' \<and>
   ReadFile [] (snd (WriteFile ref_memory ''docs/../notes/a.txt'' [104, 105] 420))
     ''docs/../notes/a.txt'' = Inr [104, 105] \<and>
   ReadFile []
     (Clone ref_platform [] (snd (WriteFile ref_memory ''docs/../notes/a.txt'' [104, 105] 420)))
     ''docs/../notes/a.txt'' = Inr [104, 105]"
proof -
  let ?w = "WriteFile ref_memory ''docs/../notes/a.txt'' [104, 105] 420"
  have nb: "\<not> IsBundledPath (bundledManager ref_memory) ''docs/../notes/a.txt''"
    by (simp add: IsBundledPath_def ref_memory_bundled)
  have wf: "wf_registry (bundledManager ref_memory)"
    by (simp add: wf_registry_def ref_memory_bundled)
  have cA: "store_content (afero ref_memory)" and tA: "store_total (afero ref_memory)"
    by (simp_all add: ref_memory_fields MemMapFs_store_content MemMapFs_store_total)
  have cM: "store_content (fst (NewMemMapFs ref_platform))"
    and tM: "store_total (fst (NewMemMapFs ref_platform))"
    by (simp_all add: ref_platform_def MemMapFs_store_content MemMapFs_store_total)
  note t = write_then_read_round_trip[OF nb wf cA cM tM, of "[104, 105]" 420 "[]" "[]" "[]"]
  from t tA have ok: "fst ?w = None" by blast
  then have w: "?w = (None, snd ?w)" by (metis prod.collapse)
  from t w ref_memory_round_trip ok show ?thesis by metis
qed

text \<open>
  Claim C2 as stated fails for the clone in two ways.  On the instance whose walk reports
  an error before it reaches \<^verbatim>\<open>/c.txt\<close>, the write and the read succeed, but \<^verbatim>\<open>Clone\<close>
  drops the error and returns a clone without the file.  And on the memory instance where
  \<^verbatim>\<open>/d/f\<close> was written and the directory \<^verbatim>\<open>/d\<close> then removed: a second write to \<^verbatim>\<open>/d/f\<close>
  succeeds and reads back, the path is no directory and the walk of \<^verbatim>\<open>Clone\<close> reports no
  error, but the new directory \<^verbatim>\<open>/d\<close> does not list the file, so the walk does not visit it
  and the clone does not hold it.
\<close>

theorem clone_can_miss_written_bytes:
  "\<not> IsBundledPath (bundledManager ref_faulty) ''/c.txt'' \<and>
   fst (WriteFile ref_faulty ''/c.txt'' [104, 105] 420) = None \<and>
   ReadFile [] (snd (WriteFile ref_faulty ''/c.txt'' [104, 105] 420)) ''/c.txt'' = Inr [104, 105] \<and>
   fst (Clone_copy ref_platform [] (snd (WriteFile ref_faulty ''/c.txt'' [104, 105] 420))) =
     Some (LibError ''permission denied'') \<and>
   ReadFile [] (Clone ref_platform [] (snd (WriteFile ref_faulty ''/c.txt'' [104, 105] 420)))
     ''/c.txt'' = Inl (PathError ''open'' ''/c.txt'' (LibError ''file does not exist'')) \<and>
   fst (Remove (snd (WriteFile ref_memory ''/d/f'' [1] 420)) ''/d'') = None \<and>
   fst (WriteFile (snd (Remove (snd (WriteFile ref_memory ''/d/f'' [1] 420)) ''/d''))
          ''/d/f'' [104, 105] 420) = None \<and>
   ReadFile []
     (snd (WriteFile (snd (Remove (snd (WriteFile ref_memory ''/d/f'' [1] 420)) ''/d''))
             ''/d/f'' [104, 105] 420))
     ''/d/f'' = Inr [104, 105] \<and>
   IsDir []
     (snd (WriteFile (snd (Remove (snd (WriteFile ref_memory ''/d/f'' [1] 420)) ''/d''))
             ''/d/f'' [104, 105] 420))
     ''/d/f'' = False \<and>
   fst (Clone_copy ref_platform []
          (snd (WriteFile (snd (Remove (snd (WriteFile ref_memory ''/d/f'' [1] 420)) ''/d''))
                  ''/d/f'' [104, 105] 420))) = None \<and>
   ReadFile []
     (Clone ref_platform []
        (snd (WriteFile (snd (Remove (snd (WriteFile ref_memory ''/d/f'' [1] 420)) ''/d''))
                ''/d/f'' [104, 105] 420)))
     ''/d/f'' = Inl (PathError ''open'' ''/d/f'' (LibError ''file does not exist''))"
  by code_simp

end
